theory Spec2Isabelle
  imports Main
begin

section \<open>Text: code points, whitespace, case\<close>

text \<open>
  A Python \<open>str\<close> is a sequence of Unicode code points, so a string is modelled as a list
  of code points (natural numbers), not of bytes. \<open>str\<close> turns an ASCII literal into such
  a list.
\<close>

type_synonym codepoint = nat
type_synonym pystr = "codepoint list"

definition str :: "string \<Rightarrow> pystr" where
  "str = map of_char"

text \<open>
  The whitespace of \<open>str.strip()\<close> and of \<open>\s\<close> in a \<open>str\<close> pattern is the same set
  (\<open>Py_UNICODE_ISSPACE\<close>): TAB..CR, FS..US, space, NEL, NBSP and the Unicode space
  separators. The line boundaries of \<open>str.splitlines()\<close> are LF, VT, FF, CR, FS, GS, RS,
  NEL, LS and PS.
\<close>

definition is_space :: "codepoint \<Rightarrow> bool" where
  "is_space c = ((9 \<le> c \<and> c \<le> 13) \<or> (28 \<le> c \<and> c \<le> 32) \<or> c = 133 \<or> c = 160
     \<or> c = 5760 \<or> (8192 \<le> c \<and> c \<le> 8202) \<or> c = 8232 \<or> c = 8233 \<or> c = 8239
     \<or> c = 8287 \<or> c = 12288)"

definition is_linebreak :: "codepoint \<Rightarrow> bool" where
  "is_linebreak c = ((10 \<le> c \<and> c \<le> 13) \<or> (28 \<le> c \<and> c \<le> 30) \<or> c = 133
     \<or> c = 8232 \<or> c = 8233)"

text \<open>
  \<open>re.IGNORECASE\<close> on the letters of the literals \<open>by\<close> and \<open>footnote:\<close>: a code point
  matches a lower-case pattern letter iff it is that letter or its ASCII capital (no other
  code point folds to one of b, y, f, o, t, n, e).
\<close>

definition to_lower :: "codepoint \<Rightarrow> codepoint" where
  "to_lower c = (if 65 \<le> c \<and> c \<le> 90 then c + 32 else c)"

definition lstrip :: "pystr \<Rightarrow> pystr" where
  "lstrip s = dropWhile is_space s"

definition rstrip :: "pystr \<Rightarrow> pystr" where
  "rstrip s = rev (dropWhile is_space (rev s))"

definition strip :: "pystr \<Rightarrow> pystr" where
  "strip s = rstrip (lstrip s)"

lemma dropWhile_Cons_shorter: "dropWhile P xs = b # r \<Longrightarrow> length r < length xs"
  using length_dropWhile_le [of P xs] by simp

lemma dropWhile_drop_dropWhile_le:
  "length (dropWhile Q (drop n (dropWhile P xs))) \<le> length xs"
proof -
  have "length (dropWhile Q (drop n (dropWhile P xs))) \<le> length (drop n (dropWhile P xs))"
    by (rule length_dropWhile_le)
  also have "\<dots> \<le> length (dropWhile P xs)" by simp
  also have "\<dots> \<le> length xs" by (rule length_dropWhile_le)
  finally show ?thesis .
qed

text \<open>\<open>str.splitlines()\<close>: CR LF is one boundary; no empty last line after a final boundary.\<close>

function splitlines :: "pystr \<Rightarrow> pystr list" where
  "splitlines [] = []"
| "splitlines (c # cs) =
     (case dropWhile (\<lambda>x. \<not> is_linebreak x) (c # cs) of
        [] \<Rightarrow> [c # cs]
      | b # r \<Rightarrow> takeWhile (\<lambda>x. \<not> is_linebreak x) (c # cs)
                 # splitlines (if b = 13 \<and> take 1 r = [10] then drop 1 r else r))"
  by pat_completeness auto
termination
proof (relation "measure length", goal_cases)
  case 1
  show ?case by simp
next
  case (2 c cs b r)
  then have "length r < length (c # cs)"
    by (rule dropWhile_Cons_shorter)
  then show ?case by auto
qed

section \<open>normalize_whitespace\<close>

text \<open>\<open>re.sub(r"\s+", " ", text)\<close>: every maximal run of whitespace becomes one space.\<close>

function sub_ws :: "pystr \<Rightarrow> pystr" where
  "sub_ws [] = []"
| "sub_ws (c # cs) =
     (if is_space c then 32 # sub_ws (dropWhile is_space cs) else c # sub_ws cs)"
  by pat_completeness auto
termination
  by (relation "measure length") (auto simp: less_Suc_eq_le length_dropWhile_le)

definition normalize_whitespace :: "pystr \<Rightarrow> pystr" where
  "normalize_whitespace t = strip (sub_ws t)"

text \<open>A text in which every whitespace code point is a single space between two others.\<close>

fun single_spaced :: "pystr \<Rightarrow> bool" where
  "single_spaced [] = True"
| "single_spaced [c] = (if is_space c then c = 32 else True)"
| "single_spaced (c # d # r) =
     ((if is_space c then c = 32 \<and> \<not> is_space d else True) \<and> single_spaced (d # r))"

section \<open>split_sentences\<close>

definition is_terminator :: "codepoint \<Rightarrow> bool" where
  "is_terminator c = (c = 46 \<or> c = 33 \<or> c = 63)"

text \<open>
  \<open>SENTENCE_PATTERN.findall\<close> for \<open>[^.!?]+[.!?]?\s*\<close>: at a terminator nothing matches and
  the scan moves on one code point; elsewhere the match is the maximal run of
  non-terminators, then the terminator that follows it (if any), then the maximal run of
  whitespace. Every later part is optional, so the greedy choice is never given back.
\<close>

function sentence_findall :: "pystr \<Rightarrow> pystr list" where
  "sentence_findall [] = []"
| "sentence_findall (c # cs) =
     (if is_terminator c then sentence_findall cs
      else (let body = takeWhile (\<lambda>x. \<not> is_terminator x) (c # cs);
                r1 = dropWhile (\<lambda>x. \<not> is_terminator x) (c # cs);
                t = take 1 r1;
                r2 = drop 1 r1;
                ws = takeWhile is_space r2;
                r3 = dropWhile is_space r2
            in (body @ t @ ws) # sentence_findall r3))"
  by pat_completeness auto
termination
proof (relation "measure length", goal_cases)
  case 1
  show ?case by simp
next
  case (2 c cs)
  show ?case by simp
next
  case (3 c cs body r1 t r2 ws r3)
  have "length (dropWhile is_space (drop 1 (dropWhile (\<lambda>x. \<not> is_terminator x) cs))) \<le> length cs"
    by (rule dropWhile_drop_dropWhile_le)
  with 3 show ?case by simp
qed

definition split_sentences :: "pystr \<Rightarrow> pystr list" where
  "split_sentences paragraph =
     (let paragraph = strip paragraph in
      if paragraph = [] then []
      else filter (\<lambda>s. s \<noteq> []) (map normalize_whitespace (sentence_findall paragraph)))"

text \<open>
  The final fragment of a paragraph: the text after its last terminator, the whole text
  when there is none.
\<close>

definition final_fragment :: "pystr \<Rightarrow> pystr" where
  "final_fragment s = rev (takeWhile (\<lambda>x. \<not> is_terminator x) (rev s))"

section \<open>extract_notes\<close>

text \<open>
  A match of \<open>\[\^([^\]]+)\]\<close> at the head of the text: group 1 and the text after the
  match. The class \<open>[^\]]+\<close> takes the maximal run without \<open>]\<close>; a shorter run would be
  followed by a code point that is not \<open>]\<close>, so backtracking cannot help.
\<close>

definition match_footnote_ref :: "pystr \<Rightarrow> (pystr \<times> pystr) option" where
  "match_footnote_ref s =
     (if take 2 s = str ''[^'' then
        (let g = takeWhile (\<lambda>x. x \<noteq> 93) (drop 2 s);
             r = dropWhile (\<lambda>x. x \<noteq> 93) (drop 2 s)
         in if g \<noteq> [] \<and> r \<noteq> [] then Some (g, drop 1 r) else None)
      else None)"

text \<open>
  A match of \<open>\[(footnote:[^\]]+)\]\<close> with \<open>re.IGNORECASE\<close>: group 1 opens before the
  word \<open>footnote\<close>, so it holds the word as written, the colon and the identifier.
\<close>

definition match_inline_footnote :: "pystr \<Rightarrow> (pystr \<times> pystr) option" where
  "match_inline_footnote s =
     (if take 1 s = str ''['' \<and> map to_lower (take 9 (drop 1 s)) = str ''footnote:'' then
        (let g = takeWhile (\<lambda>x. x \<noteq> 93) (drop 10 s);
             r = dropWhile (\<lambda>x. x \<noteq> 93) (drop 10 s)
         in if g \<noteq> [] \<and> r \<noteq> [] then Some (take 9 (drop 1 s) @ g, drop 1 r) else None)
      else None)"

lemma drop_dropWhile_drop_shorter:
  assumes "dropWhile P (drop n s) \<noteq> []"
  shows "length (drop 1 (dropWhile P (drop n s))) < length s"
proof -
  have "length (dropWhile P (drop n s)) \<le> length (drop n s)"
    by (rule length_dropWhile_le)
  then have a: "length (dropWhile P (drop n s)) \<le> length s" by simp
  from assms have b: "0 < length (dropWhile P (drop n s))"
    by (cases "dropWhile P (drop n s)") simp_all
  show ?thesis unfolding length_drop using a b by linarith
qed

lemma match_footnote_ref_shorter:
  assumes "match_footnote_ref s = Some (g, r)"
  shows "length r < length s"
proof -
  from assms have h: "dropWhile (\<lambda>x. x \<noteq> 93) (drop 2 s) \<noteq> []"
    and r: "r = drop 1 (dropWhile (\<lambda>x. x \<noteq> 93) (drop 2 s))"
    by (simp_all add: match_footnote_ref_def Let_def split: if_splits)
  show ?thesis unfolding r by (rule drop_dropWhile_drop_shorter [OF h])
qed

lemma match_inline_footnote_shorter:
  assumes "match_inline_footnote s = Some (g, r)"
  shows "length r < length s"
proof -
  from assms have h: "dropWhile (\<lambda>x. x \<noteq> 93) (drop 10 s) \<noteq> []"
    and r: "r = drop 1 (dropWhile (\<lambda>x. x \<noteq> 93) (drop 10 s))"
    by (simp_all add: match_inline_footnote_def Let_def split: if_splits)
  show ?thesis unfolding r by (rule drop_dropWhile_drop_shorter [OF h])
qed

text \<open>
  \<open>FOOTNOTE_REF_RE.sub(footnote_replacer, sentence)\<close>: left to right, a match is replaced
  by the empty string and its group 1, stripped, is appended to \<open>notes\<close>; where nothing
  matches, the code point is copied. The result is the new text and the notes appended.
\<close>

function sub_footnote_ref :: "pystr \<Rightarrow> pystr \<times> pystr list" where
  "sub_footnote_ref [] = ([], [])"
| "sub_footnote_ref (c # cs) =
     (case match_footnote_ref (c # cs) of
        Some (g, r) \<Rightarrow> (let (out, ns) = sub_footnote_ref r in (out, strip g # ns))
      | None \<Rightarrow> (let (out, ns) = sub_footnote_ref cs in (c # out, ns)))"
  by pat_completeness auto
termination
  by (relation "measure length") (auto dest: match_footnote_ref_shorter)

function sub_inline_footnote :: "pystr \<Rightarrow> pystr \<times> pystr list" where
  "sub_inline_footnote [] = ([], [])"
| "sub_inline_footnote (c # cs) =
     (case match_inline_footnote (c # cs) of
        Some (g, r) \<Rightarrow> (let (out, ns) = sub_inline_footnote r in (out, strip g # ns))
      | None \<Rightarrow> (let (out, ns) = sub_inline_footnote cs in (c # out, ns)))"
  by pat_completeness auto
termination
  by (relation "measure length") (auto dest: match_inline_footnote_shorter)

definition extract_notes :: "pystr \<Rightarrow> pystr \<times> pystr list" where
  "extract_notes sentence =
     (let (cleaned, notes1) = sub_footnote_ref sentence;
          (cleaned, notes2) = sub_inline_footnote cleaned
      in (normalize_whitespace cleaned, notes1 @ notes2))"

text \<open>
  What can keep a marker from being matched as itself. A reference \<open>[^\<close> or an inline
  footnote \<open>[footnote:\<close> is left open in a text when no \<open>]\<close> follows it there: appended
  text then closes it, and its match runs into that text. An identifier holds no reference
  when the first pass leaves it, with the closing bracket, as it is.
\<close>

fun reference_left_open :: "pystr \<Rightarrow> bool" where
  "reference_left_open [] = False"
| "reference_left_open (c # cs) =
     ((take 2 (c # cs) = str ''[^'' \<and> 93 \<notin> set cs) \<or> reference_left_open cs)"

fun inline_left_open :: "pystr \<Rightarrow> bool" where
  "inline_left_open [] = False"
| "inline_left_open (c # cs) =
     ((c = 91 \<and> map to_lower (take 9 cs) = str ''footnote:'' \<and> 93 \<notin> set cs)
      \<or> inline_left_open cs)"

definition holds_no_reference :: "pystr \<Rightarrow> bool" where
  "holds_no_reference ident = (sub_footnote_ref (ident @ str '']'') = (ident @ str '']'', []))"

section \<open>The document and the parser state\<close>

record sentence_rec =
  sentence_number :: nat
  sentence_text :: pystr
  sentence_notes :: "pystr list option"

record paragraph_rec =
  paragraph_number :: nat
  sentences :: "sentence_rec list"

record chapter_rec =
  chapter_number :: nat
  chapter_title :: pystr
  paragraphs :: "paragraph_rec list"

record metadata_rec =
  authors :: "pystr list"

record document =
  title :: pystr
  metadata :: "metadata_rec option"
  chapters :: "chapter_rec list"

text \<open>
  The local variables of \<open>parse_markdown\<close>. \<open>book_metadata\<close> is a dict whose only key
  is \<open>authors\<close>: \<open>None\<close> is the empty dict. \<open>current_chapter\<close> is a reference to a dict
  that is also an element of \<open>chapters\<close>; it is kept as the position of that element, so
  that appending a paragraph through the reference changes the element of the list.
\<close>

record parser_state =
  book_title :: "pystr option"
  book_metadata :: "pystr list option"
  st_chapters :: "chapter_rec list"
  current_chapter :: "nat option"
  paragraph_lines :: "pystr list"

definition initial_state :: parser_state where
  "initial_state = \<lparr>book_title = None, book_metadata = None, st_chapters = [],
     current_chapter = None, paragraph_lines = []\<rparr>"

section \<open>Line patterns\<close>

text \<open>
  \<open>HEADING_RE.match(line)\<close> for \<open>^(#+)\s+(.*)$\<close>: groups 1 and 2. The line has been
  right-stripped, so \<open>$\<close> is the end of the line, and \<open>.\<close> is any code point but LF.
\<close>

definition heading_match :: "pystr \<Rightarrow> (pystr \<times> pystr) option" where
  "heading_match line =
     (let hashes = takeWhile (\<lambda>x. x = 35) line;
          r = dropWhile (\<lambda>x. x = 35) line;
          ws = takeWhile is_space r;
          txt = dropWhile is_space r
      in if hashes \<noteq> [] \<and> ws \<noteq> [] \<and> 10 \<notin> set txt then Some (hashes, txt) else None)"

text \<open>
  \<open>BY_LINE_RE.match(s)\<close> for \<open>^by\s+(.+)$\<close> with \<open>re.IGNORECASE\<close>: group 1. The text has
  been stripped, so \<open>$\<close> is its end.
\<close>

definition by_line_match :: "pystr \<Rightarrow> pystr option" where
  "by_line_match s =
     (let ws = takeWhile is_space (drop 2 s);
          name = dropWhile is_space (drop 2 s)
      in if map to_lower (take 2 s) = str ''by'' \<and> ws \<noteq> [] \<and> name \<noteq> [] \<and> 10 \<notin> set name
         then Some name else None)"

section \<open>ensure_chapter and flush_paragraph\<close>

definition new_chapter :: "chapter_rec list \<Rightarrow> pystr \<Rightarrow> chapter_rec" where
  "new_chapter chs t =
     \<lparr>chapter_number = length chs + 1, chapter_title = t, paragraphs = []\<rparr>"

text \<open>\<open>current_chapter = ensure_chapter(current_chapter, chapters, fallback_title)\<close>.\<close>

definition ensure_chapter :: "parser_state \<Rightarrow> pystr \<Rightarrow> parser_state" where
  "ensure_chapter st fallback_title =
     (case current_chapter st of
        Some i \<Rightarrow> st
      | None \<Rightarrow> st\<lparr>st_chapters := st_chapters st @ [new_chapter (st_chapters st) fallback_title],
                     current_chapter := Some (length (st_chapters st))\<rparr>)"

text \<open>\<open>book_title or "Section 1"\<close>: an absent and an empty title both give the fallback.\<close>

definition fallback_title :: "parser_state \<Rightarrow> pystr" where
  "fallback_title st =
     (case book_title st of
        None \<Rightarrow> str ''Section 1''
      | Some t \<Rightarrow> if t = [] then str ''Section 1'' else t)"

fun join_space :: "pystr list \<Rightarrow> pystr" where
  "join_space [] = []"
| "join_space [x] = x"
| "join_space (x # y # r) = x @ 32 # join_space (y # r)"

definition sentence_entry :: "nat \<times> pystr \<Rightarrow> sentence_rec" where
  "sentence_entry e =
     (case e of (number, s) \<Rightarrow>
        (case extract_notes s of (cleaned_sentence, ns) \<Rightarrow>
           \<lparr>sentence_number = number, sentence_text = cleaned_sentence,
            sentence_notes = (if ns = [] then None else Some ns)\<rparr>))"

definition append_paragraph :: "chapter_rec \<Rightarrow> sentence_rec list \<Rightarrow> chapter_rec" where
  "append_paragraph ch ss =
     ch\<lparr>paragraphs := paragraphs ch
          @ [\<lparr>paragraph_number = length (paragraphs ch) + 1, sentences = ss\<rparr>]\<rparr>"

definition flush_paragraph :: "parser_state \<Rightarrow> parser_state" where
  "flush_paragraph st =
     (case current_chapter st of
        None \<Rightarrow> st\<lparr>paragraph_lines := []\<rparr>
      | Some i \<Rightarrow>
          (let paragraph_text =
                 join_space (filter (\<lambda>l. l \<noteq> []) (map strip (paragraph_lines st)));
               st1 = st\<lparr>paragraph_lines := []\<rparr>
           in if paragraph_text = [] then st1
              else (let ss = map sentence_entry (enumerate 1 (split_sentences paragraph_text))
                    in if ss = [] then st1
                       else st1\<lparr>st_chapters :=
                              (st_chapters st)[i := append_paragraph (st_chapters st ! i) ss]\<rparr>)))"

section \<open>parse_markdown\<close>

definition record_author :: "parser_state \<Rightarrow> pystr \<Rightarrow> parser_state" where
  "record_author st s =
     (case by_line_match s of
        Some name \<Rightarrow>
          (if book_metadata st = None
           then st\<lparr>book_metadata := Some [normalize_whitespace name]\<rparr> else st)
      | None \<Rightarrow> st)"

text \<open>One turn of the loop \<open>for raw_line in lines\<close>.\<close>

definition process_line :: "parser_state \<Rightarrow> pystr \<Rightarrow> parser_state" where
  "process_line st raw_line =
     (let line = rstrip raw_line in
      case heading_match line of
        Some (hashes, txt) \<Rightarrow>
          (let st1 = flush_paragraph st;
               level = length hashes;
               heading_text = strip txt
           in if book_title st1 = None \<and> level = 1
              then st1\<lparr>book_title := Some heading_text, current_chapter := None\<rparr>
              else (let st2 = record_author st1 heading_text
                    in st2\<lparr>st_chapters := st_chapters st2 @ [new_chapter (st_chapters st2) heading_text],
                           current_chapter := Some (length (st_chapters st2))\<rparr>))
      | None \<Rightarrow>
          (let stripped = strip line in
           if stripped = [] then flush_paragraph st
           else (let st1 = record_author st stripped in
                 if take 2 stripped = str ''- ''
                 then (let st2 = ensure_chapter st1 (fallback_title st1);
                           st3 = flush_paragraph st2;
                           st4 = st3\<lparr>paragraph_lines := [stripped]\<rparr>
                       in flush_paragraph st4)
                 else (let st2 = ensure_chapter st1 (fallback_title st1)
                       in st2\<lparr>paragraph_lines := paragraph_lines st2 @ [line]\<rparr>))))"

definition finish :: "parser_state \<Rightarrow> document" where
  "finish st =
     \<lparr>title = (case book_title st of None \<Rightarrow> str ''Untitled'' | Some t \<Rightarrow> t),
      metadata = (case book_metadata st of None \<Rightarrow> None | Some a \<Rightarrow> Some \<lparr>authors = a\<rparr>),
      chapters = st_chapters st\<rparr>"

definition parse_lines :: "pystr list \<Rightarrow> document" where
  "parse_lines ls = finish (flush_paragraph (foldl process_line initial_state ls))"

definition parse_markdown :: "pystr \<Rightarrow> document" where
  "parse_markdown markdown_text = parse_lines (splitlines markdown_text)"

section \<open>Numbering and state predicates\<close>

definition counts_from_1 :: "nat list \<Rightarrow> bool" where
  "counts_from_1 ns = (ns = [1..<Suc (length ns)])"

definition paragraph_numbered :: "paragraph_rec \<Rightarrow> bool" where
  "paragraph_numbered p = counts_from_1 (map sentence_number (sentences p))"

definition chapter_numbered :: "chapter_rec \<Rightarrow> bool" where
  "chapter_numbered ch =
     (counts_from_1 (map paragraph_number (paragraphs ch))
      \<and> list_all paragraph_numbered (paragraphs ch))"

definition chapters_numbered :: "chapter_rec list \<Rightarrow> bool" where
  "chapters_numbered chs =
     (counts_from_1 (map chapter_number chs) \<and> list_all chapter_numbered chs)"

definition increasing_from_1 :: "nat list \<Rightarrow> bool" where
  "increasing_from_1 ns = (sorted_wrt (<) ns \<and> (case ns of [] \<Rightarrow> True | n # _ \<Rightarrow> n = 1))"

definition current_valid :: "parser_state \<Rightarrow> bool" where
  "current_valid st =
     (case current_chapter st of None \<Rightarrow> True | Some i \<Rightarrow> i < length (st_chapters st))"

definition open_chapter_state :: parser_state where
  "open_chapter_state = \<lparr>book_title = None, book_metadata = None,
     st_chapters = [\<lparr>chapter_number = 1, chapter_title = str ''Ch'', paragraphs = []\<rparr>],
     current_chapter = Some 0, paragraph_lines = [str ''Some prose'']\<rparr>"

section \<open>Properties of whitespace normalization\<close>

lemma single_spaced_Cons:
  "single_spaced (c # s) =
     ((if is_space c then c = 32 \<and> (s = [] \<or> \<not> is_space (hd s)) else True) \<and> single_spaced s)"
  by (cases s) auto

lemma sub_ws_head: "s \<noteq> [] \<Longrightarrow> \<not> is_space (hd s) \<Longrightarrow> hd (sub_ws s) = hd s \<and> sub_ws s \<noteq> []"
  by (cases s) auto

lemma sub_ws_dropWhile_head:
  "sub_ws (dropWhile is_space cs) = [] \<or> \<not> is_space (hd (sub_ws (dropWhile is_space cs)))"
proof (cases "dropWhile is_space cs = []")
  case True
  then have "sub_ws (dropWhile is_space cs) = []" by (simp only: sub_ws.simps)
  then show ?thesis by (rule disjI1)
next
  case False
  then have "\<not> is_space (hd (dropWhile is_space cs))" by (rule hd_dropWhile)
  with False show ?thesis using sub_ws_head by metis
qed

lemma single_spaced_sub_ws: "single_spaced (sub_ws s)"
proof (induction s rule: sub_ws.induct)
  case 1
  show ?case by simp
next
  case (2 c cs)
  show ?case
  proof (cases "is_space c")
    case True
    with 2 have "single_spaced (sub_ws (dropWhile is_space cs))" by simp
    with True sub_ws_dropWhile_head [of cs] show ?thesis
      by (simp add: single_spaced_Cons is_space_def)
  next
    case False
    with 2 have "single_spaced (sub_ws cs)" by simp
    with False show ?thesis by (simp add: single_spaced_Cons)
  qed
qed

lemma sub_ws_fixed: "single_spaced s \<Longrightarrow> sub_ws s = s"
  by (induction s rule: single_spaced.induct) (auto split: if_splits)

lemma single_spaced_append: "single_spaced (a @ b) \<Longrightarrow> single_spaced a \<and> single_spaced b"
proof (induction a)
  case Nil
  then show ?case by simp
next
  case (Cons x a)
  then show ?case by (cases a) (auto simp: single_spaced_Cons split: if_splits)
qed

lemma lstrip_suffix: "takeWhile is_space s @ lstrip s = s"
  by (simp add: lstrip_def)

lemma rstrip_prefix: "rstrip s @ rev (takeWhile is_space (rev s)) = s"
proof -
  have "rev (takeWhile is_space (rev s) @ dropWhile is_space (rev s)) = s" by simp
  then show ?thesis unfolding rstrip_def rev_append .
qed

lemma single_spaced_strip: "single_spaced s \<Longrightarrow> single_spaced (strip s)"
proof -
  assume a: "single_spaced s"
  then have "single_spaced (takeWhile is_space s @ lstrip s)" by (simp only: lstrip_suffix)
  then have "single_spaced (lstrip s)" using single_spaced_append by blast
  then have "single_spaced (rstrip (lstrip s) @ rev (takeWhile is_space (rev (lstrip s))))"
    by (simp only: rstrip_prefix)
  then show ?thesis unfolding strip_def using single_spaced_append by blast
qed

lemma lstrip_hd: "lstrip s = [] \<or> \<not> is_space (hd (lstrip s))"
  unfolding lstrip_def using hd_dropWhile by blast

lemma rstrip_last: "rstrip s = [] \<or> \<not> is_space (last (rstrip s))"
proof (cases "dropWhile is_space (rev s) = []")
  case True
  then show ?thesis by (simp add: rstrip_def)
next
  case False
  then have "\<not> is_space (hd (dropWhile is_space (rev s)))" by (rule hd_dropWhile)
  with False show ?thesis by (simp add: rstrip_def last_rev)
qed

lemma lstrip_id: "s = [] \<or> \<not> is_space (hd s) \<Longrightarrow> lstrip s = s"
  by (cases s) (auto simp: lstrip_def)

lemma rstrip_id: "s = [] \<or> \<not> is_space (last s) \<Longrightarrow> rstrip s = s"
proof -
  assume "s = [] \<or> \<not> is_space (last s)"
  then have "rev s = [] \<or> \<not> is_space (hd (rev s))" by (auto simp: hd_rev)
  then have "dropWhile is_space (rev s) = rev s" by (cases "rev s") auto
  then show ?thesis by (simp add: rstrip_def)
qed

lemma rstrip_hd: "rstrip s \<noteq> [] \<Longrightarrow> hd (rstrip s) = hd s"
proof -
  assume a: "rstrip s \<noteq> []"
  have "hd (rstrip s @ rev (takeWhile is_space (rev s))) = hd s" by (simp only: rstrip_prefix)
  with a show ?thesis by simp
qed

lemma strip_ends:
  "strip s = [] \<or> (\<not> is_space (hd (strip s)) \<and> \<not> is_space (last (strip s)))"
proof (cases "strip s = []")
  case True
  then show ?thesis by simp
next
  case False
  then have ne: "rstrip (lstrip s) \<noteq> []" by (simp add: strip_def)
  then have "lstrip s \<noteq> []" by (auto simp: rstrip_def)
  with lstrip_hd [of s] have "\<not> is_space (hd (lstrip s))" by simp
  with rstrip_hd [OF ne] have "\<not> is_space (hd (strip s))" by (simp add: strip_def)
  moreover from ne rstrip_last [of "lstrip s"] have "\<not> is_space (last (strip s))"
    by (simp add: strip_def)
  ultimately show ?thesis by simp
qed

lemma strip_id: "s = [] \<or> (\<not> is_space (hd s) \<and> \<not> is_space (last s)) \<Longrightarrow> strip s = s"
  by (auto simp: strip_def lstrip_id rstrip_id)

lemma strip_idem: "strip (strip s) = strip s"
  using strip_ends [of s] by (intro strip_id) blast

lemma normalize_whitespace_fixed:
  "normalize_whitespace (normalize_whitespace s) = normalize_whitespace s"
proof -
  have "single_spaced (strip (sub_ws s))"
    by (rule single_spaced_strip) (rule single_spaced_sub_ws)
  then have "sub_ws (strip (sub_ws s)) = strip (sub_ws s)" by (rule sub_ws_fixed)
  then show ?thesis by (simp add: normalize_whitespace_def strip_idem)
qed

text \<open>
  C9. Whitespace normalization is idempotent: normalizing a normalized text returns it
  unchanged.
\<close>

theorem normalize_whitespace_idempotent:
  "normalize_whitespace (normalize_whitespace s) = normalize_whitespace s"
  by (rule normalize_whitespace_fixed)

section \<open>Evaluation on concrete texts\<close>

lemma str_simps: "str [] = []" "str (c # cs) = of_char c # str cs"
  by (simp_all add: str_def)

lemmas text_defs = str_simps is_space_def is_linebreak_def is_terminator_def to_lower_def
  strip_def lstrip_def rstrip_def normalize_whitespace_def split_sentences_def
  match_footnote_ref_def match_inline_footnote_def extract_notes_def Let_def

lemmas parser_defs = initial_state_def heading_match_def by_line_match_def new_chapter_def
  ensure_chapter_def fallback_title_def sentence_entry_def append_paragraph_def
  flush_paragraph_def record_author_def process_line_def finish_def parse_lines_def
  parse_markdown_def enumerate_eq_zip

lemma parse_just_a_line:
  "parse_markdown (str ''Just a line.\<newline>'') =
     \<lparr>title = str ''Untitled'', metadata = None,
      chapters = [\<lparr>chapter_number = 1, chapter_title = str ''Section 1'',
        paragraphs = [\<lparr>paragraph_number = 1,
          sentences = [\<lparr>sentence_number = 1, sentence_text = str ''Just a line.'',
                       sentence_notes = None\<rparr>]\<rparr>]\<rparr>]\<rparr>"
  by (simp add: text_defs parser_defs)

lemma parse_my_book:
  "parse_markdown (str ''# My Book\<newline>\<newline>by Jane Doe\<newline>\<newline>## Ch1\<newline>\<newline>Hello world. This is a test.\<newline>'') =
     \<lparr>title = str ''My Book'', metadata = Some \<lparr>authors = [str ''Jane Doe'']\<rparr>,
      chapters =
       [\<lparr>chapter_number = 1, chapter_title = str ''My Book'',
         paragraphs = [\<lparr>paragraph_number = 1,
           sentences = [\<lparr>sentence_number = 1, sentence_text = str ''by Jane Doe'',
                        sentence_notes = None\<rparr>]\<rparr>]\<rparr>,
        \<lparr>chapter_number = 2, chapter_title = str ''Ch1'',
         paragraphs = [\<lparr>paragraph_number = 1,
           sentences = [\<lparr>sentence_number = 1, sentence_text = str ''Hello world.'',
                        sentence_notes = None\<rparr>,
                       \<lparr>sentence_number = 2, sentence_text = str ''This is a test.'',
                        sentence_notes = None\<rparr>]\<rparr>]\<rparr>]\<rparr>"
  by (simp add: text_defs parser_defs)

text \<open>
  C1, as the code has it. For the text
  \<open>"# My Book\n\nby Jane Doe\n\n## Ch1\n\nHello world. This is a test.\n"\<close> the document has
  the title \<open>My Book\<close>, the authors \<open>[Jane Doe]\<close> and two chapters: the line
  \<open>by Jane Doe\<close> is also content, so it opens the fallback chapter 1, titled \<open>My Book\<close>,
  whose one paragraph holds the one sentence \<open>by Jane Doe\<close>; chapter 2 is \<open>Ch1\<close>, with one
  paragraph of the two sentences \<open>Hello world.\<close> and \<open>This is a test.\<close>
\<close>

theorem my_book_document:
  "parse_markdown (str ''# My Book\<newline>\<newline>by Jane Doe\<newline>\<newline>## Ch1\<newline>\<newline>Hello world. This is a test.\<newline>'') =
     \<lparr>title = str ''My Book'', metadata = Some \<lparr>authors = [str ''Jane Doe'']\<rparr>,
      chapters =
       [\<lparr>chapter_number = 1, chapter_title = str ''My Book'',
         paragraphs = [\<lparr>paragraph_number = 1,
           sentences = [\<lparr>sentence_number = 1, sentence_text = str ''by Jane Doe'',
                        sentence_notes = None\<rparr>]\<rparr>]\<rparr>,
        \<lparr>chapter_number = 2, chapter_title = str ''Ch1'',
         paragraphs = [\<lparr>paragraph_number = 1,
           sentences = [\<lparr>sentence_number = 1, sentence_text = str ''Hello world.'',
                        sentence_notes = None\<rparr>,
                       \<lparr>sentence_number = 2, sentence_text = str ''This is a test.'',
                        sentence_notes = None\<rparr>]\<rparr>]\<rparr>]\<rparr>"
  by (rule parse_my_book)

text \<open>
  C1 as stated fails: the document for that text does not have exactly one chapter, and its
  first chapter is not \<open>Ch1\<close>.
\<close>

theorem my_book_one_chapter_counterexample:
  "\<not> (length (chapters (parse_markdown (str ''# My Book\<newline>\<newline>by Jane Doe\<newline>\<newline>## Ch1\<newline>\<newline>Hello world. This is a test.\<newline>''))) = 1
      \<and> chapter_title (hd (chapters (parse_markdown (str ''# My Book\<newline>\<newline>by Jane Doe\<newline>\<newline>## Ch1\<newline>\<newline>Hello world. This is a test.\<newline>'')))) = str ''Ch1'')"
  by (simp add: parse_my_book)

text \<open>
  C2, as the code has it. For the text \<open>"Just a line.\n"\<close> the document has the title
  \<open>Untitled\<close> and one fallback chapter, numbered 1 and titled \<open>Section 1\<close>, with one
  paragraph holding the one sentence \<open>Just a line.\<close>
\<close>

theorem just_a_line_document:
  "parse_markdown (str ''Just a line.\<newline>'') =
     \<lparr>title = str ''Untitled'', metadata = None,
      chapters = [\<lparr>chapter_number = 1, chapter_title = str ''Section 1'',
        paragraphs = [\<lparr>paragraph_number = 1,
          sentences = [\<lparr>sentence_number = 1, sentence_text = str ''Just a line.'',
                       sentence_notes = None\<rparr>]\<rparr>]\<rparr>]\<rparr>"
  by (rule parse_just_a_line)

text \<open>
  C2 as stated fails: the title of the fallback chapter is not the title of the document.
\<close>

theorem just_a_line_same_title_counterexample:
  "chapter_title (hd (chapters (parse_markdown (str ''Just a line.\<newline>''))))
     \<noteq> title (parse_markdown (str ''Just a line.\<newline>''))"
  unfolding parse_just_a_line by (simp add: str_simps)

section \<open>Invariants of the parser\<close>

lemma flush_paragraph_fields:
  "book_title (flush_paragraph st) = book_title st"
  "book_metadata (flush_paragraph st) = book_metadata st"
  "current_chapter (flush_paragraph st) = current_chapter st"
  "paragraph_lines (flush_paragraph st) = []"
  "length (st_chapters (flush_paragraph st)) = length (st_chapters st)"
  by (simp_all add: flush_paragraph_def Let_def split: option.splits)

lemma ensure_chapter_fields:
  "book_title (ensure_chapter st t) = book_title st"
  "book_metadata (ensure_chapter st t) = book_metadata st"
  "paragraph_lines (ensure_chapter st t) = paragraph_lines st"
  by (simp_all add: ensure_chapter_def split: option.splits)

lemma record_author_fields:
  "book_title (record_author st s) = book_title st"
  "st_chapters (record_author st s) = st_chapters st"
  "current_chapter (record_author st s) = current_chapter st"
  "paragraph_lines (record_author st s) = paragraph_lines st"
  by (simp_all add: record_author_def split: option.splits)

lemma counts_from_1_Nil: "counts_from_1 []"
  by (simp add: counts_from_1_def)

lemma counts_from_1_snoc: "counts_from_1 ns \<Longrightarrow> counts_from_1 (ns @ [length ns + 1])"
proof -
  assume "counts_from_1 ns"
  then have "ns = [1..<Suc (length ns)]" by (simp only: counts_from_1_def)
  then have "ns @ [Suc (length ns)] = [1..<Suc (Suc (length ns))]" by simp
  then show ?thesis by (simp add: counts_from_1_def)
qed

lemma sentence_number_entry: "sentence_number (sentence_entry (n, s)) = n"
  by (simp add: sentence_entry_def split: prod.splits)

lemma sentence_entries_numbered:
  "counts_from_1 (map sentence_number (map sentence_entry (enumerate 1 raw)))"
proof -
  have "map sentence_number (map sentence_entry es) = map fst es" for es
    by (induction es) (auto simp: sentence_number_entry)
  then have "map sentence_number (map sentence_entry (enumerate 1 raw)) = [1..<1 + length raw]"
    by (simp only: map_fst_enumerate)
  then show ?thesis by (simp add: counts_from_1_def del: upt_Suc)
qed

lemma chapter_numbered_append_paragraph:
  "chapter_numbered ch \<Longrightarrow> ss = map sentence_entry (enumerate 1 raw)
     \<Longrightarrow> chapter_numbered (append_paragraph ch ss)"
  using sentence_entries_numbered [of raw] counts_from_1_snoc [of "map paragraph_number (paragraphs ch)"]
  by (simp add: chapter_numbered_def append_paragraph_def paragraph_numbered_def)

lemma chapter_number_append_paragraph:
  "chapter_number (append_paragraph ch ss) = chapter_number ch"
  by (simp add: append_paragraph_def)

lemma chapters_numbered_update:
  assumes "chapters_numbered chs" and "i < length chs"
    and "chapter_numbered c" and "chapter_number c = chapter_number (chs ! i)"
  shows "chapters_numbered (chs[i := c])"
proof -
  have "map chapter_number (chs[i := c]) = (map chapter_number chs)[i := chapter_number c]"
    by (rule map_update)
  also have "\<dots> = map chapter_number chs"
    using assms(2,4) by (simp add: list_update_same_conv)
  finally have n: "map chapter_number (chs[i := c]) = map chapter_number chs" .
  have "set (chs[i := c]) \<subseteq> insert c (set chs)" by (rule set_update_subset_insert)
  with assms(1,3) have "list_all chapter_numbered (chs[i := c])"
    by (auto simp: chapters_numbered_def list_all_iff)
  with assms(1) n show ?thesis by (simp add: chapters_numbered_def)
qed

lemma chapters_numbered_nth:
  "chapters_numbered chs \<Longrightarrow> i < length chs \<Longrightarrow> chapter_numbered (chs ! i)"
  by (simp add: chapters_numbered_def list_all_length)

lemma chapters_numbered_flush:
  assumes "chapters_numbered (st_chapters st)"
  shows "chapters_numbered (st_chapters (flush_paragraph st))"
proof (cases "current_chapter st")
  case None
  with assms show ?thesis by (simp add: flush_paragraph_def)
next
  case (Some i)
  show ?thesis
  proof (cases "i < length (st_chapters st)")
    case True
    have "chapters_numbered ((st_chapters st)[i := append_paragraph (st_chapters st ! i)
             (map sentence_entry (enumerate 1 raw))])" for raw
      using assms True
      by (intro chapters_numbered_update chapter_numbered_append_paragraph [OF _ refl]
            chapters_numbered_nth chapter_number_append_paragraph)
    with assms Some show ?thesis by (simp add: flush_paragraph_def Let_def)
  next
    case False
    with assms Some show ?thesis by (simp add: flush_paragraph_def Let_def list_update_beyond)
  qed
qed

lemma chapters_numbered_new_chapter:
  assumes "chapters_numbered chs"
  shows "chapters_numbered (chs @ [new_chapter chs t])"
  using assms counts_from_1_snoc [of "map chapter_number chs"]
  by (simp add: chapters_numbered_def new_chapter_def chapter_numbered_def counts_from_1_Nil)

lemma chapters_numbered_ensure:
  "chapters_numbered (st_chapters st) \<Longrightarrow> chapters_numbered (st_chapters (ensure_chapter st t))"
  by (simp add: ensure_chapter_def chapters_numbered_new_chapter split: option.splits)

lemma chapters_numbered_process_line:
  assumes "chapters_numbered (st_chapters st)"
  shows "chapters_numbered (st_chapters (process_line st l))"
  using assms
  by (auto simp: process_line_def Let_def record_author_fields
      intro!: chapters_numbered_flush chapters_numbered_new_chapter chapters_numbered_ensure
      split: option.splits)

lemma chapters_numbered_foldl:
  "chapters_numbered (st_chapters st) \<Longrightarrow> chapters_numbered (st_chapters (foldl process_line st ls))"
  by (induction ls arbitrary: st) (simp_all add: chapters_numbered_process_line)

lemma chapters_numbered_parse: "chapters_numbered (chapters (parse_markdown s))"
proof -
  have "chapters_numbered (st_chapters initial_state)"
    by (simp add: initial_state_def chapters_numbered_def counts_from_1_Nil)
  then show ?thesis
    by (simp add: parse_markdown_def parse_lines_def finish_def chapters_numbered_flush
        chapters_numbered_foldl)
qed

lemma counts_increasing: "counts_from_1 ns \<Longrightarrow> increasing_from_1 ns"
proof -
  assume "counts_from_1 ns"
  then have e: "ns = [1..<Suc (length ns)]" by (simp only: counts_from_1_def)
  have "sorted_wrt (<) [1..<Suc (length ns)]" by (rule sorted_wrt_upt)
  with e have s: "sorted_wrt (<) ns" by (simp del: upt_Suc)
  have "(case ns of [] \<Rightarrow> True | n # _ \<Rightarrow> n = 1)"
  proof (cases ns)
    case Nil
    then show ?thesis by simp
  next
    case (Cons n r)
    with e have "n # r = [1..<Suc (Suc (length r))]" by (simp del: upt_Suc)
    moreover have "[1..<Suc (Suc (length r))] = 1 # [Suc 1..<Suc (Suc (length r))]"
      by (rule upt_conv_Cons) simp
    ultimately have "n = 1" by (simp only: list.inject)
    with Cons show ?thesis by simp
  qed
  with s show ?thesis by (simp add: increasing_from_1_def)
qed

text \<open>
  C4. For every text, the chapter numbers of the parsed document increase strictly from 1,
  and so do the paragraph numbers within every chapter and the sentence numbers within
  every paragraph.
\<close>

theorem numbering_increases_from_1:
  "increasing_from_1 (map chapter_number (chapters (parse_markdown s)))
   \<and> (\<forall>ch \<in> set (chapters (parse_markdown s)).
        increasing_from_1 (map paragraph_number (paragraphs ch))
        \<and> (\<forall>p \<in> set (paragraphs ch). increasing_from_1 (map sentence_number (sentences p))))"
  using chapters_numbered_parse [of s]
  by (auto simp: chapters_numbered_def chapter_numbered_def paragraph_numbered_def list_all_iff
      intro: counts_increasing)


theorem numbering_increases_from_1_witness:
  "chapters (parse_markdown (str ''# My Book\<newline>\<newline>by Jane Doe\<newline>\<newline>## Ch1\<newline>\<newline>Hello world. This is a test.\<newline>'')) \<noteq> []
   \<and> increasing_from_1 (map chapter_number (chapters (parse_markdown (str ''# My Book\<newline>\<newline>by Jane Doe\<newline>\<newline>## Ch1\<newline>\<newline>Hello world. This is a test.\<newline>''))))
   \<and> increasing_from_1 (map paragraph_number (paragraphs (last (chapters (parse_markdown (str ''# My Book\<newline>\<newline>by Jane Doe\<newline>\<newline>## Ch1\<newline>\<newline>Hello world. This is a test.\<newline>''))))))
   \<and> increasing_from_1 (map sentence_number (sentences (hd (paragraphs (last (chapters (parse_markdown (str ''# My Book\<newline>\<newline>by Jane Doe\<newline>\<newline>## Ch1\<newline>\<newline>Hello world. This is a test.\<newline>''))))))))"
  using numbering_increases_from_1 [of "str ''# My Book\<newline>\<newline>by Jane Doe\<newline>\<newline>## Ch1\<newline>\<newline>Hello world. This is a test.\<newline>''"]
  unfolding parse_my_book by simp

lemma record_author_keeps: "book_metadata st = Some a \<Longrightarrow> record_author st s = st"
  by (simp add: record_author_def split: option.splits)

lemma process_line_keeps_author:
  assumes "book_metadata st = Some a"
  shows "book_metadata (process_line st l) = Some a"
proof -
  have f: "book_metadata (flush_paragraph st) = Some a"
    using assms by (simp add: flush_paragraph_fields)
  show ?thesis
    using assms
    by (simp add: process_line_def Let_def flush_paragraph_fields ensure_chapter_fields
        record_author_keeps [OF f] record_author_keeps [OF assms] split: option.splits)
qed

lemma foldl_keeps_author:
  "book_metadata st = Some a \<Longrightarrow> book_metadata (foldl process_line st ls) = Some a"
  by (induction ls arbitrary: st) (simp_all add: process_line_keeps_author)

lemma record_author_new:
  "book_metadata st = None \<Longrightarrow> book_metadata (record_author st s) = Some a
     \<Longrightarrow> \<exists>name. by_line_match s = Some name \<and> a = [normalize_whitespace name]"
  by (auto simp: record_author_def split: option.splits)

lemma process_line_first_author:
  assumes "book_metadata st = None" and "book_metadata (process_line st l) = Some a"
  shows "\<exists>name. a = [normalize_whitespace name]
           \<and> (case heading_match (rstrip l) of
                 None \<Rightarrow> by_line_match (strip (rstrip l)) = Some name
               | Some (hs, t) \<Rightarrow> by_line_match (strip t) = Some name)"
proof (cases "heading_match (rstrip l)")
  case None
  with assms have "book_metadata (record_author st (strip (rstrip l))) = Some a"
    by (simp add: process_line_def Let_def flush_paragraph_fields ensure_chapter_fields
        split: if_splits)
  from record_author_new [OF assms(1) this] None show ?thesis by auto
next
  case (Some p)
  obtain hs t where p: "p = (hs, t)" by (cases p)
  from assms(1) have f: "book_metadata (flush_paragraph st) = None"
    by (simp add: flush_paragraph_fields)
  from assms Some p have "book_metadata (record_author (flush_paragraph st) (strip t)) = Some a"
    by (simp add: process_line_def Let_def flush_paragraph_fields split: if_splits)
  from record_author_new [OF f this] Some p show ?thesis by auto
qed

text \<open>
  C6. First match wins: when a line, heading or plain, is the first to record an author,
  the metadata of the document holds exactly that one author, the name captured from that
  line, whatever lines follow.
\<close>

theorem first_author_wins:
  assumes "book_metadata (foldl process_line initial_state pre) = None"
    and "book_metadata (process_line (foldl process_line initial_state pre) l) = Some a"
  shows "metadata (parse_lines (pre @ l # post)) = Some \<lparr>authors = a\<rparr>
         \<and> (\<exists>name. a = [normalize_whitespace name]
               \<and> (case heading_match (rstrip l) of
                     None \<Rightarrow> by_line_match (strip (rstrip l)) = Some name
                   | Some (hs, t) \<Rightarrow> by_line_match (strip t) = Some name))"
proof -
  have "book_metadata (foldl process_line initial_state (pre @ l # post)) = Some a"
    using assms(2) by (simp add: foldl_keeps_author)
  then have "metadata (parse_lines (pre @ l # post)) = Some \<lparr>authors = a\<rparr>"
    by (simp add: parse_lines_def finish_def flush_paragraph_fields)
  with process_line_first_author [OF assms] show ?thesis by simp
qed

theorem first_author_wins_witness:
  "book_metadata (foldl process_line initial_state [str ''# My Book'', []]) = None
   \<and> book_metadata (process_line (foldl process_line initial_state [str ''# My Book'', []])
         (str ''by Jane Doe'')) = Some [str ''Jane Doe'']
   \<and> metadata (parse_lines ([str ''# My Book'', []] @ str ''by Jane Doe''
         # [[], str ''## by Someone Else'', str ''by A Third''])) =
       Some \<lparr>authors = [str ''Jane Doe'']\<rparr>"
proof -
  have h1: "book_metadata (foldl process_line initial_state [str ''# My Book'', []]) = None"
    by (simp add: text_defs parser_defs)
  have h2: "book_metadata (process_line (foldl process_line initial_state [str ''# My Book'', []])
         (str ''by Jane Doe'')) = Some [str ''Jane Doe'']"
    by (simp add: text_defs parser_defs)
  from first_author_wins [OF h1 h2] h1 h2 show ?thesis by simp
qed

text \<open>
  C10. Take a heading whose text matches the author pattern. Met at level 1 while no title
  is set, it becomes the title and records no author, so the metadata stays as it was.
  Every other heading, of level 1 with the title known or of any deeper level, records the
  author when none is recorded yet, and so does a plain line that matches.
\<close>

theorem title_heading_records_no_author:
  assumes "heading_match (rstrip l) = Some (hs, t)" and "by_line_match (strip t) = Some name"
  shows "(book_title st = None \<and> length hs = 1 \<longrightarrow>
            book_metadata (process_line st l) = book_metadata st
            \<and> book_title (process_line st l) = Some (strip t))
         \<and> (\<not> (book_title st = None \<and> length hs = 1) \<longrightarrow> book_metadata st = None \<longrightarrow>
            book_metadata (process_line st l) = Some [normalize_whitespace name])
         \<and> (heading_match (rstrip l2) = None \<longrightarrow> by_line_match (strip (rstrip l2)) = Some name2 \<longrightarrow>
            book_metadata st2 = None \<longrightarrow>
            book_metadata (process_line st2 l2) = Some [normalize_whitespace name2])"
proof (intro conjI impI)
  assume "book_title st = None \<and> length hs = 1"
  with assms show "book_metadata (process_line st l) = book_metadata st"
    by (simp add: process_line_def Let_def flush_paragraph_fields)
next
  assume "book_title st = None \<and> length hs = 1"
  with assms show "book_title (process_line st l) = Some (strip t)"
    by (simp add: process_line_def Let_def flush_paragraph_fields)
next
  assume "\<not> (book_title st = None \<and> length hs = 1)" and "book_metadata st = None"
  with assms show "book_metadata (process_line st l) = Some [normalize_whitespace name]"
    by (auto simp: process_line_def Let_def flush_paragraph_fields record_author_def)
next
  assume a: "heading_match (rstrip l2) = None" "by_line_match (strip (rstrip l2)) = Some name2"
    "book_metadata st2 = None"
  then have "strip (rstrip l2) \<noteq> []" by (auto simp: by_line_match_def Let_def str_simps)
  with a show "book_metadata (process_line st2 l2) = Some [normalize_whitespace name2]"
    by (simp add: process_line_def Let_def flush_paragraph_fields ensure_chapter_fields
        record_author_def)
qed

theorem title_heading_records_no_author_witness:
  "heading_match (rstrip (str ''# by Jane Doe'')) = Some (str ''#'', str ''by Jane Doe'')
   \<and> heading_match (rstrip (str ''## by Jane Doe'')) = Some (str ''##'', str ''by Jane Doe'')
   \<and> by_line_match (strip (str ''by Jane Doe'')) = Some (str ''Jane Doe'')
   \<and> book_title initial_state = None \<and> length (str ''#'') = 1
   \<and> book_metadata (process_line initial_state (str ''# by Jane Doe'')) = None
   \<and> book_title (process_line initial_state (str ''# by Jane Doe'')) = Some (str ''by Jane Doe'')
   \<and> \<not> (book_title (initial_state\<lparr>book_title := Some (str ''T'')\<rparr>) = None \<and> length (str ''#'') = 1)
   \<and> book_metadata (initial_state\<lparr>book_title := Some (str ''T'')\<rparr>) = None
   \<and> book_metadata (process_line (initial_state\<lparr>book_title := Some (str ''T'')\<rparr>)
         (str ''# by Jane Doe'')) = Some [str ''Jane Doe'']
   \<and> \<not> (book_title initial_state = None \<and> length (str ''##'') = 1)
   \<and> book_metadata initial_state = None
   \<and> book_metadata (process_line initial_state (str ''## by Jane Doe'')) = Some [str ''Jane Doe'']
   \<and> heading_match (rstrip (str ''by Jim'')) = None
   \<and> by_line_match (strip (rstrip (str ''by Jim''))) = Some (str ''Jim'')
   \<and> book_metadata (process_line initial_state (str ''by Jim'')) = Some [str ''Jim'']"
proof -
  have h1: "heading_match (rstrip (str ''# by Jane Doe'')) = Some (str ''#'', str ''by Jane Doe'')"
    and h2: "heading_match (rstrip (str ''## by Jane Doe'')) = Some (str ''##'', str ''by Jane Doe'')"
    and h3: "by_line_match (strip (str ''by Jane Doe'')) = Some (str ''Jane Doe'')"
    and h4: "heading_match (rstrip (str ''by Jim'')) = None"
    and h5: "by_line_match (strip (rstrip (str ''by Jim''))) = Some (str ''Jim'')"
    by (simp_all add: text_defs heading_match_def by_line_match_def)
  have n: "normalize_whitespace (str ''Jane Doe'') = str ''Jane Doe''"
    "normalize_whitespace (str ''Jim'') = str ''Jim''"
    by (simp_all add: text_defs)
  have i: "book_title initial_state = None" "book_metadata initial_state = None"
    by (simp_all add: initial_state_def)
  from title_heading_records_no_author [OF h1 h3, of initial_state "str ''by Jim''" "str ''Jim''" initial_state]
    title_heading_records_no_author [OF h1 h3, of "initial_state\<lparr>book_title := Some (str ''T'')\<rparr>" "str ''by Jim''" "str ''Jim''" initial_state]
    title_heading_records_no_author [OF h2 h3, of initial_state "str ''by Jim''" "str ''Jim''" initial_state]
    h1 h2 h3 h4 h5 i n
  show ?thesis by (simp add: text_defs)
qed

lemma current_valid_flush: "current_valid st \<Longrightarrow> current_valid (flush_paragraph st)"
  by (simp add: current_valid_def flush_paragraph_fields split: option.splits)

lemma current_valid_ensure: "current_valid st \<Longrightarrow> current_valid (ensure_chapter st t)"
  by (simp add: current_valid_def ensure_chapter_def split: option.splits)

lemma current_valid_record_author: "current_valid (record_author st s) = current_valid st"
  by (simp add: current_valid_def record_author_fields split: option.splits)

lemma current_valid_process_line:
  assumes "current_valid st"
  shows "current_valid (process_line st l)"
proof (cases "heading_match (rstrip l)")
  case None
  have "current_valid (st'\<lparr>paragraph_lines := ls\<rparr>) = current_valid st'" for st' ls
    by (simp add: current_valid_def split: option.splits)
  with assms None show ?thesis
    by (simp add: process_line_def Let_def current_valid_flush current_valid_ensure
        current_valid_record_author)
next
  case (Some p)
  with assms show ?thesis
    by (cases p) (simp add: process_line_def Let_def current_valid_def)
qed

lemma current_valid_foldl:
  "current_valid st \<Longrightarrow> current_valid (foldl process_line st ls)"
  by (induction ls arbitrary: st) (simp_all add: current_valid_process_line)

text \<open>
  C5. \<open>parse_markdown\<close> is total: every function of the model is defined by terminating
  recursion and has no error result, as the source has no operation that raises; the
  reference \<open>current_chapter\<close> always points at a chapter of the list; and the empty text
  gives the default title, no chapters and no metadata.
\<close>

theorem parse_total:
  "(\<exists>d. parse_markdown s = d)
   \<and> current_valid (foldl process_line initial_state ls)
   \<and> parse_markdown [] = \<lparr>title = str ''Untitled'', metadata = None, chapters = []\<rparr>"
proof -
  have "current_valid initial_state" by (simp add: current_valid_def initial_state_def)
  then have "current_valid (foldl process_line initial_state ls)" by (rule current_valid_foldl)
  moreover have "parse_markdown [] = \<lparr>title = str ''Untitled'', metadata = None, chapters = []\<rparr>"
    by (simp add: parser_defs)
  ultimately show ?thesis by simp
qed

section \<open>Inline footnotes\<close>

lemma match_footnote_ref_other: "c \<noteq> 91 \<Longrightarrow> match_footnote_ref (c # cs) = None"
  by (simp add: match_footnote_ref_def str_simps)

lemma match_inline_footnote_other: "c \<noteq> 91 \<Longrightarrow> match_inline_footnote (c # cs) = None"
  by (simp add: match_inline_footnote_def str_simps)

lemma sub_footnote_ref_skip:
  "91 \<notin> set a \<Longrightarrow>
     sub_footnote_ref (a @ b) = (a @ fst (sub_footnote_ref b), snd (sub_footnote_ref b))"
  by (induction a) (simp_all add: match_footnote_ref_other split_beta)

lemma sub_inline_footnote_skip:
  "91 \<notin> set a \<Longrightarrow>
     sub_inline_footnote (a @ b) = (a @ fst (sub_inline_footnote b), snd (sub_inline_footnote b))"
  by (induction a) (simp_all add: match_inline_footnote_other split_beta)

lemma sub_footnote_ref_plain: "91 \<notin> set a \<Longrightarrow> sub_footnote_ref a = (a, [])"
  using sub_footnote_ref_skip [of a "[]"] by simp

lemma sub_inline_footnote_plain: "91 \<notin> set a \<Longrightarrow> sub_inline_footnote a = (a, [])"
  using sub_inline_footnote_skip [of a "[]"] by simp

lemma footnote_word:
  assumes "map to_lower kw = str ''footnote''"
  shows "length kw = 8" and "91 \<notin> set kw" and "94 \<notin> set kw"
proof -
  from assms have "length (map to_lower kw) = length (str ''footnote'')" by simp
  then show "length kw = 8" by (simp add: str_def)
  have s: "set (map to_lower kw) = set (str ''footnote'')" using assms by simp
  show "91 \<notin> set kw"
  proof
    assume "91 \<in> set kw"
    then have "to_lower 91 \<in> set (map to_lower kw)" by (simp only: set_map) (rule imageI)
    with s show False by (simp add: to_lower_def str_simps)
  qed
  show "94 \<notin> set kw"
  proof
    assume "94 \<in> set kw"
    then have "to_lower 94 \<in> set (map to_lower kw)" by (simp only: set_map) (rule imageI)
    with s show False by (simp add: to_lower_def str_simps)
  qed
qed

lemma match_footnote_ref_word:
  assumes "map to_lower kw = str ''footnote''"
  shows "match_footnote_ref (91 # kw @ r) = None"
proof -
  from footnote_word [OF assms] obtain k ks where kw: "kw = k # ks" and "k \<noteq> 94"
    by (cases kw) auto
  then show ?thesis by (simp add: match_footnote_ref_def str_simps)
qed

lemma match_inline_footnote_marker:
  assumes "map to_lower kw = str ''footnote''" and "ident \<noteq> []" and "93 \<notin> set ident"
  shows "match_inline_footnote (91 # kw @ 58 # ident @ 93 # r) = Some (kw @ 58 # ident, r)"
proof -
  define s where "s = 91 # kw @ 58 # ident @ 93 # r"
  have l: "length kw = 8" by (rule footnote_word(1) [OF assms(1)])
  have h1: "take 1 s = str ''[''" by (simp add: s_def str_simps)
  have h2: "take 9 (drop 1 s) = kw @ [58]" using l by (simp add: s_def)
  have h3: "drop 10 s = ident @ 93 # r" using l by (simp add: s_def)
  have a: "\<forall>x \<in> set ident. x \<noteq> 93" using assms(3) by blast
  have tw: "takeWhile (\<lambda>x. x \<noteq> 93) (ident @ 93 # r) = ident"
    using a by simp
  have dw: "dropWhile (\<lambda>x. x \<noteq> 93) (ident @ 93 # r) = 93 # r"
    using a by simp
  have m: "map to_lower (kw @ [58]) = str ''footnote:''"
    using assms(1) by (simp add: str_def to_lower_def)
  have "match_inline_footnote s = Some (kw @ 58 # ident, r)"
    unfolding match_inline_footnote_def h1 h2 h3 tw dw m Let_def
    using assms(2) by simp
  then show ?thesis by (simp only: s_def)
qed

lemma reference_left_open_suffix: "reference_left_open r \<Longrightarrow> reference_left_open (x @ r)"
  by (induction x) simp_all

lemma inline_left_open_suffix: "inline_left_open r \<Longrightarrow> inline_left_open (x @ r)"
  by (induction x) simp_all

lemma reference_closed: "\<not> reference_left_open (u @ [93])"
  by (induction u) (simp_all add: str_simps)

lemma match_footnote_ref_suffix:
  assumes "match_footnote_ref s = Some (g, r)"
  shows "\<exists>x. s = x @ r"
proof -
  from assms have "r = drop 1 (dropWhile (\<lambda>x. x \<noteq> 93) (drop 2 s))"
    by (simp add: match_footnote_ref_def Let_def split: if_splits)
  then have "r = drop (1 + (length (takeWhile (\<lambda>x. x \<noteq> 93) (drop 2 s)) + 2)) s"
    by (simp add: dropWhile_eq_drop)
  then have "s = take (1 + (length (takeWhile (\<lambda>x. x \<noteq> 93) (drop 2 s)) + 2)) s @ r"
    by (simp only: append_take_drop_id)
  then show ?thesis by blast
qed

lemma match_inline_footnote_suffix:
  assumes "match_inline_footnote s = Some (g, r)"
  shows "\<exists>x. s = x @ r"
proof -
  from assms have "r = drop 1 (dropWhile (\<lambda>x. x \<noteq> 93) (drop 10 s))"
    by (simp add: match_inline_footnote_def Let_def split: if_splits)
  then have "r = drop (1 + (length (takeWhile (\<lambda>x. x \<noteq> 93) (drop 10 s)) + 10)) s"
    by (simp add: dropWhile_eq_drop)
  then have "s = take (1 + (length (takeWhile (\<lambda>x. x \<noteq> 93) (drop 10 s)) + 10)) s @ r"
    by (simp only: append_take_drop_id)
  then show ?thesis by blast
qed

lemma until_bracket_append:
  assumes "dropWhile (\<lambda>x. x \<noteq> 93) w \<noteq> []"
  shows "takeWhile (\<lambda>x. x \<noteq> 93) (w @ b) = takeWhile (\<lambda>x. x \<noteq> 93) w"
    and "drop 1 (dropWhile (\<lambda>x. x \<noteq> 93) (w @ b)) = drop 1 (dropWhile (\<lambda>x. x \<noteq> 93) w) @ b"
    and "dropWhile (\<lambda>x. x \<noteq> 93) (w @ b) \<noteq> []"
proof -
  from assms obtain x where x: "x \<in> set w" "\<not> x \<noteq> 93" by (auto simp: dropWhile_eq_Nil_conv)
  then show "takeWhile (\<lambda>x. x \<noteq> 93) (w @ b) = takeWhile (\<lambda>x. x \<noteq> 93) w"
    by (rule takeWhile_append1)
  from x have d: "dropWhile (\<lambda>x. x \<noteq> 93) (w @ b) = dropWhile (\<lambda>x. x \<noteq> 93) w @ b"
    by (rule dropWhile_append1)
  with assms show "drop 1 (dropWhile (\<lambda>x. x \<noteq> 93) (w @ b)) = drop 1 (dropWhile (\<lambda>x. x \<noteq> 93) w) @ b"
    by (cases "dropWhile (\<lambda>x. x \<noteq> 93) w") simp_all
  from d assms show "dropWhile (\<lambda>x. x \<noteq> 93) (w @ b) \<noteq> []" by simp
qed

lemma match_footnote_ref_append_Some:
  assumes "match_footnote_ref s = Some (g, r)"
  shows "match_footnote_ref (s @ b) = Some (g, r @ b)"
proof -
  from assms have t: "take 2 s = str ''[^''"
    and g: "g = takeWhile (\<lambda>x. x \<noteq> 93) (drop 2 s)" "g \<noteq> []"
    and d: "dropWhile (\<lambda>x. x \<noteq> 93) (drop 2 s) \<noteq> []"
    and r: "r = drop 1 (dropWhile (\<lambda>x. x \<noteq> 93) (drop 2 s))"
    by (simp_all add: match_footnote_ref_def Let_def split: if_splits)
  from t have l: "2 \<le> length s" by (cases s; cases "tl s") (auto simp: str_simps)
  then have t2: "take 2 (s @ b) = str ''[^''" and d2: "drop 2 (s @ b) = drop 2 s @ b"
    using t by simp_all
  from d have m: "93 \<in> set (drop 2 s)" by (auto simp: dropWhile_eq_Nil_conv)
  show ?thesis
    unfolding match_footnote_ref_def t2 d2 Let_def until_bracket_append [OF d]
    using g r m by simp
qed

lemma match_inline_footnote_append_Some:
  assumes "match_inline_footnote s = Some (g, r)"
  shows "match_inline_footnote (s @ b) = Some (g, r @ b)"
proof -
  from assms have t: "take 1 s = str ''[''"
    and k: "map to_lower (take 9 (drop 1 s)) = str ''footnote:''"
    and g: "g = take 9 (drop 1 s) @ takeWhile (\<lambda>x. x \<noteq> 93) (drop 10 s)"
      "takeWhile (\<lambda>x. x \<noteq> 93) (drop 10 s) \<noteq> []"
    and d: "dropWhile (\<lambda>x. x \<noteq> 93) (drop 10 s) \<noteq> []"
    and r: "r = drop 1 (dropWhile (\<lambda>x. x \<noteq> 93) (drop 10 s))"
    by (simp_all add: match_inline_footnote_def Let_def split: if_splits)
  from k have "length (map to_lower (take 9 (drop 1 s))) = length (str ''footnote:'')" by simp
  then have l: "10 \<le> length s" by (simp add: str_def)
  then have t2: "take 1 (s @ b) = str ''[''" and k2: "take 9 (drop 1 (s @ b)) = take 9 (drop 1 s)"
    and d2: "drop 10 (s @ b) = drop 10 s @ b"
    using t by simp_all
  from d have m: "93 \<in> set (drop 10 s)" by (auto simp: dropWhile_eq_Nil_conv)
  show ?thesis
    unfolding match_inline_footnote_def t2 k2 d2 Let_def until_bracket_append [OF d] k
    using g r m by simp
qed

lemma match_footnote_ref_append_None:
  assumes "match_footnote_ref (c # cs) = None"
    and "\<not> (take 2 (c # cs) = str ''[^'' \<and> 93 \<notin> set cs)"
    and "cs \<noteq> [] \<or> c \<noteq> 91 \<or> take 1 b \<noteq> [94]"
  shows "match_footnote_ref ((c # cs) @ b) = None"
proof (cases "take 2 (c # cs) = str ''[^''")
  case True
  then obtain ds where cs: "cs = 94 # ds" and c: "c = 91"
    by (cases cs) (auto simp: str_simps)
  from True assms(2) cs have "93 \<in> set ds" by simp
  then have d: "dropWhile (\<lambda>x. x \<noteq> 93) ds \<noteq> []" by (auto simp: dropWhile_eq_Nil_conv)
  with assms(1) cs c have "takeWhile (\<lambda>x. x \<noteq> 93) ds = []"
    by (simp add: match_footnote_ref_def Let_def str_simps split: if_splits)
  then have "takeWhile (\<lambda>x. x \<noteq> 93) (ds @ b) = []"
    using until_bracket_append(1) [OF d, of b] by simp
  with cs c show ?thesis by (simp add: match_footnote_ref_def Let_def str_simps)
next
  case False
  show ?thesis
  proof (cases cs)
    case Nil
    with assms(3) show ?thesis
      by (cases b) (auto simp: match_footnote_ref_def str_simps)
  next
    case (Cons d ds)
    with False show ?thesis by (auto simp: match_footnote_ref_def str_simps)
  qed
qed

lemma footnote_word_no_bracket:
  "map to_lower w = str ''footnote:'' \<Longrightarrow> 91 \<notin> set w"
proof
  assume a: "map to_lower w = str ''footnote:''" and b: "91 \<in> set w"
  from b have "to_lower 91 \<in> set (map to_lower w)" by (simp only: set_map) (rule imageI)
  with a show False by (simp add: to_lower_def str_simps)
qed

lemma match_inline_footnote_append_None:
  assumes "match_inline_footnote (c # cs) = None"
    and "\<not> (c = 91 \<and> map to_lower (take 9 cs) = str ''footnote:'' \<and> 93 \<notin> set cs)"
    and "take 1 b = [91]"
  shows "match_inline_footnote ((c # cs) @ b) = None"
proof (cases "c = 91 \<and> map to_lower (take 9 (cs @ b)) = str ''footnote:''")
  case False
  then show ?thesis by (auto simp: match_inline_footnote_def str_simps)
next
  case True
  then have c: "c = 91" and k: "map to_lower (take 9 (cs @ b)) = str ''footnote:''" by simp_all
  have l: "9 \<le> length cs"
  proof (rule ccontr)
    assume "\<not> 9 \<le> length cs"
    then have s: "length cs < 9" by simp
    from assms(3) obtain b' where b: "b = 91 # b'" by (cases b) auto
    from s b have "91 \<in> set (take 9 (cs @ b))" by (simp add: take_Cons')
    with footnote_word_no_bracket [OF k] show False by simp
  qed
  then have k1: "map to_lower (take 9 cs) = str ''footnote:''" using k by simp
  with assms(2) c have "93 \<in> set cs" by simp
  moreover from footnote_word_no_bracket k1 have "93 \<notin> set (take 9 cs)"
  proof -
    have "93 \<notin> set (take 9 cs)"
    proof
      assume "93 \<in> set (take 9 cs)"
      then have "to_lower 93 \<in> set (map to_lower (take 9 cs))" by (simp only: set_map) (rule imageI)
      with k1 show False by (simp add: to_lower_def str_simps)
    qed
    then show ?thesis .
  qed
  ultimately have "93 \<in> set (drop 9 cs)"
    using append_take_drop_id [of 9 cs] by (metis Un_iff set_append)
  then have d: "dropWhile (\<lambda>x. x \<noteq> 93) (drop 9 cs) \<noteq> []" by (auto simp: dropWhile_eq_Nil_conv)
  with assms(1) c k1 have "takeWhile (\<lambda>x. x \<noteq> 93) (drop 9 cs) = []"
    by (simp add: match_inline_footnote_def Let_def str_simps split: if_splits)
  then have "takeWhile (\<lambda>x. x \<noteq> 93) (drop 9 cs @ b) = []"
    using until_bracket_append(1) [OF d, of b] by simp
  with c l show ?thesis by (simp add: match_inline_footnote_def Let_def str_simps)
qed


lemma sub_footnote_ref_append:
  "\<not> reference_left_open a \<Longrightarrow> a = [] \<or> last a \<noteq> 91 \<or> take 1 b \<noteq> [94] \<Longrightarrow>
     sub_footnote_ref (a @ b) =
       (fst (sub_footnote_ref a) @ fst (sub_footnote_ref b),
        snd (sub_footnote_ref a) @ snd (sub_footnote_ref b))"
proof (induction "length a" arbitrary: a rule: less_induct)
  case less
  show ?case
  proof (cases a)
    case Nil
    then show ?thesis by simp
  next
    case (Cons c cs)
    show ?thesis
    proof (cases "match_footnote_ref (c # cs)")
      case None
      from less.prems(1) Cons have n1: "\<not> (take 2 (c # cs) = str ''[^'' \<and> 93 \<notin> set cs)"
        and n2: "\<not> reference_left_open cs" by simp_all
      from less.prems(2) Cons have s1: "cs \<noteq> [] \<or> c \<noteq> 91 \<or> take 1 b \<noteq> [94]"
        by (cases cs) auto
      from less.prems(2) Cons have s2: "cs = [] \<or> last cs \<noteq> 91 \<or> take 1 b \<noteq> [94]"
        by (cases cs) auto
      have "match_footnote_ref ((c # cs) @ b) = None"
        by (rule match_footnote_ref_append_None [OF None n1 s1])
      then have m: "match_footnote_ref (c # cs @ b) = None" by simp
      have ih: "sub_footnote_ref (cs @ b) =
          (fst (sub_footnote_ref cs) @ fst (sub_footnote_ref b),
           snd (sub_footnote_ref cs) @ snd (sub_footnote_ref b))"
        using Cons by (intro less.hyps n2 s2) simp
      show ?thesis unfolding Cons using None m ih by (simp add: split_beta)
    next
      case (Some p)
      obtain g r where p: "p = (g, r)" by (cases p)
      with Some have ms: "match_footnote_ref (c # cs) = Some (g, r)" by simp
      have "match_footnote_ref ((c # cs) @ b) = Some (g, r @ b)"
        by (rule match_footnote_ref_append_Some [OF ms])
      then have m: "match_footnote_ref (c # cs @ b) = Some (g, r @ b)" by simp
      from match_footnote_ref_suffix [OF ms] obtain x where x: "c # cs = x @ r" by blast
      have n: "\<not> reference_left_open r"
        using less.prems(1) Cons x reference_left_open_suffix [of r x] by auto
      have s: "r = [] \<or> last r \<noteq> 91 \<or> take 1 b \<noteq> [94]"
      proof (cases "r = []")
        case True
        then show ?thesis by simp
      next
        case False
        then have "last (x @ r) = last r" by simp
        with x Cons less.prems(2) show ?thesis by auto
      qed
      have "length r < length a"
        using match_footnote_ref_shorter [OF ms] Cons by simp
      then have ih: "sub_footnote_ref (r @ b) =
          (fst (sub_footnote_ref r) @ fst (sub_footnote_ref b),
           snd (sub_footnote_ref r) @ snd (sub_footnote_ref b))"
        by (intro less.hyps n s)
      show ?thesis unfolding Cons using ms m ih by (simp add: split_beta)
    qed
  qed
qed

lemma sub_inline_footnote_append:
  "\<not> inline_left_open a \<Longrightarrow> take 1 b = [91] \<Longrightarrow>
     sub_inline_footnote (a @ b) =
       (fst (sub_inline_footnote a) @ fst (sub_inline_footnote b),
        snd (sub_inline_footnote a) @ snd (sub_inline_footnote b))"
proof (induction "length a" arbitrary: a rule: less_induct)
  case less
  show ?case
  proof (cases a)
    case Nil
    then show ?thesis by simp
  next
    case (Cons c cs)
    show ?thesis
    proof (cases "match_inline_footnote (c # cs)")
      case None
      from less.prems(1) Cons
      have n1: "\<not> (c = 91 \<and> map to_lower (take 9 cs) = str ''footnote:'' \<and> 93 \<notin> set cs)"
        and n2: "\<not> inline_left_open cs" by simp_all
      have "match_inline_footnote ((c # cs) @ b) = None"
        by (rule match_inline_footnote_append_None [OF None n1 less.prems(2)])
      then have m: "match_inline_footnote (c # cs @ b) = None" by simp
      have ih: "sub_inline_footnote (cs @ b) =
          (fst (sub_inline_footnote cs) @ fst (sub_inline_footnote b),
           snd (sub_inline_footnote cs) @ snd (sub_inline_footnote b))"
        using Cons by (intro less.hyps n2 less.prems(2)) simp
      show ?thesis unfolding Cons using None m ih by (simp add: split_beta)
    next
      case (Some p)
      obtain g r where p: "p = (g, r)" by (cases p)
      with Some have ms: "match_inline_footnote (c # cs) = Some (g, r)" by simp
      have "match_inline_footnote ((c # cs) @ b) = Some (g, r @ b)"
        by (rule match_inline_footnote_append_Some [OF ms])
      then have m: "match_inline_footnote (c # cs @ b) = Some (g, r @ b)" by simp
      from match_inline_footnote_suffix [OF ms] obtain x where x: "c # cs = x @ r" by blast
      have n: "\<not> inline_left_open r"
        using less.prems(1) Cons x inline_left_open_suffix [of r x] by auto
      have "length r < length a"
        using match_inline_footnote_shorter [OF ms] Cons by simp
      then have ih: "sub_inline_footnote (r @ b) =
          (fst (sub_inline_footnote r) @ fst (sub_inline_footnote b),
           snd (sub_inline_footnote r) @ snd (sub_inline_footnote b))"
        by (intro less.hyps n less.prems(2))
      show ?thesis unfolding Cons using ms m ih by (simp add: split_beta)
    qed
  qed
qed

lemma sub_footnote_ref_marker:
  assumes "map to_lower kw = str ''footnote''" and "93 \<notin> set ident"
    and "holds_no_reference ident"
  shows "sub_footnote_ref (91 # kw @ 58 # ident @ 93 # post) =
     (91 # kw @ 58 # ident @ 93 # fst (sub_footnote_ref post), snd (sub_footnote_ref post))"
proof -
  have "sub_footnote_ref ((ident @ [93]) @ post) =
      (fst (sub_footnote_ref (ident @ [93])) @ fst (sub_footnote_ref post),
       snd (sub_footnote_ref (ident @ [93])) @ snd (sub_footnote_ref post))"
    by (rule sub_footnote_ref_append) (simp_all add: reference_closed)
  moreover from assms(3) have "sub_footnote_ref (ident @ [93]) = (ident @ [93], [])"
    by (simp add: holds_no_reference_def str_simps)
  ultimately have i: "sub_footnote_ref (ident @ 93 # post) =
      (ident @ 93 # fst (sub_footnote_ref post), snd (sub_footnote_ref post))" by simp
  have nb: "91 \<notin> set (kw @ [58])" using footnote_word(2) [OF assms(1)] by simp
  have "sub_footnote_ref ((kw @ [58]) @ ident @ 93 # post) =
      ((kw @ [58]) @ fst (sub_footnote_ref (ident @ 93 # post)),
       snd (sub_footnote_ref (ident @ 93 # post)))"
    by (rule sub_footnote_ref_skip [OF nb])
  with i have "sub_footnote_ref (kw @ 58 # ident @ 93 # post) =
      (kw @ 58 # ident @ 93 # fst (sub_footnote_ref post), snd (sub_footnote_ref post))"
    by simp
  then show ?thesis
    using match_footnote_ref_word [OF assms(1), of "58 # ident @ 93 # post"] by simp
qed

lemma extract_notes_marker:
  assumes "map to_lower kw = str ''footnote''" and "ident \<noteq> []" and "93 \<notin> set ident"
    and "holds_no_reference ident"
    and "\<not> reference_left_open pre"
    and "\<not> inline_left_open (fst (sub_footnote_ref pre))"
  shows "extract_notes (pre @ 91 # kw @ 58 # ident @ 93 # post) =
     (normalize_whitespace (fst (sub_inline_footnote (fst (sub_footnote_ref pre)))
        @ fst (sub_inline_footnote (fst (sub_footnote_ref post)))),
      snd (sub_footnote_ref pre) @ snd (sub_footnote_ref post)
        @ snd (sub_inline_footnote (fst (sub_footnote_ref pre)))
        @ strip (kw @ 58 # ident)
        # snd (sub_inline_footnote (fst (sub_footnote_ref post))))"
proof -
  define pre1 where "pre1 = fst (sub_footnote_ref pre)"
  define post1 where "post1 = fst (sub_footnote_ref post)"
  have "sub_footnote_ref (pre @ 91 # kw @ 58 # ident @ 93 # post) =
      (fst (sub_footnote_ref pre) @ fst (sub_footnote_ref (91 # kw @ 58 # ident @ 93 # post)),
       snd (sub_footnote_ref pre) @ snd (sub_footnote_ref (91 # kw @ 58 # ident @ 93 # post)))"
    by (rule sub_footnote_ref_append [OF assms(5)]) simp
  then have pass1: "sub_footnote_ref (pre @ 91 # kw @ 58 # ident @ 93 # post) =
      (pre1 @ 91 # kw @ 58 # ident @ 93 # post1,
       snd (sub_footnote_ref pre) @ snd (sub_footnote_ref post))"
    unfolding sub_footnote_ref_marker [OF assms(1,3,4)] pre1_def post1_def by simp
  have "sub_inline_footnote (91 # kw @ 58 # ident @ 93 # post1) =
      (fst (sub_inline_footnote post1), strip (kw @ 58 # ident) # snd (sub_inline_footnote post1))"
    using match_inline_footnote_marker [OF assms(1,2,3), of post1] by (simp add: split_beta)
  moreover have "sub_inline_footnote (pre1 @ 91 # kw @ 58 # ident @ 93 # post1) =
      (fst (sub_inline_footnote pre1) @ fst (sub_inline_footnote (91 # kw @ 58 # ident @ 93 # post1)),
       snd (sub_inline_footnote pre1) @ snd (sub_inline_footnote (91 # kw @ 58 # ident @ 93 # post1)))"
    using assms(6) by (intro sub_inline_footnote_append) (simp_all add: pre1_def)
  ultimately have pass2: "sub_inline_footnote (pre1 @ 91 # kw @ 58 # ident @ 93 # post1) =
      (fst (sub_inline_footnote pre1) @ fst (sub_inline_footnote post1),
       snd (sub_inline_footnote pre1) @ strip (kw @ 58 # ident) # snd (sub_inline_footnote post1))"
    by simp
  show ?thesis
    unfolding extract_notes_def pass1 using pass2 by (simp add: pre1_def post1_def)
qed

text \<open>
  C3, as the code has it. Take a sentence with an inline footnote marker: the word
  \<open>footnote\<close> in any case, a colon and a non-empty identifier, between \<open>[\<close> and the next
  \<open>]\<close>. Let no other match consume the marker: no \<open>[^\<close> is left open before it, no
  \<open>[footnote:\<close> is left open before it once the references are removed, and the
  identifier holds no reference. Then \<open>extract_notes\<close> removes the marker from the cleaned
  text, which is what the two passes leave of the text before and after it, and the note it
  appends is the whole bracket content, stripped: the word as written, the colon and the
  identifier. The notes in order: the references before and after the marker, the inline
  footnotes before it, the marker, the inline footnotes after it.
\<close>

theorem inline_footnote_payload:
  assumes "map to_lower kw = str ''footnote''" and "ident \<noteq> []" and "93 \<notin> set ident"
    and "holds_no_reference ident"
    and "\<not> reference_left_open pre"
    and "\<not> inline_left_open (fst (sub_footnote_ref pre))"
  shows "extract_notes (pre @ str ''['' @ kw @ str '':'' @ ident @ str '']'' @ post) =
     (normalize_whitespace (fst (sub_inline_footnote (fst (sub_footnote_ref pre)))
        @ fst (sub_inline_footnote (fst (sub_footnote_ref post)))),
      snd (sub_footnote_ref pre) @ snd (sub_footnote_ref post)
        @ snd (sub_inline_footnote (fst (sub_footnote_ref pre)))
        @ [strip (kw @ str '':'' @ ident)]
        @ snd (sub_inline_footnote (fst (sub_footnote_ref post))))
    \<and> (91 \<notin> set pre \<longrightarrow> 91 \<notin> set post \<longrightarrow>
         extract_notes (pre @ str ''['' @ kw @ str '':'' @ ident @ str '']'' @ post) =
           (normalize_whitespace (pre @ post), [strip (kw @ str '':'' @ ident)]))"
  using extract_notes_marker [OF assms, of post]
  by (simp add: str_simps sub_footnote_ref_plain sub_inline_footnote_plain)

theorem inline_footnote_payload_witness:
  "map to_lower (str ''Footnote'') = str ''footnote'' \<and> str '' x y '' \<noteq> []
   \<and> 93 \<notin> set (str '' x y '') \<and> holds_no_reference (str '' x y '')
   \<and> \<not> reference_left_open (str ''See this[^1] and [that] '')
   \<and> \<not> inline_left_open (fst (sub_footnote_ref (str ''See this[^1] and [that] '')))
   \<and> extract_notes (str ''See this[^1] and [that] '' @ str ''['' @ str ''Footnote'' @ str '':''
         @ str '' x y '' @ str '']'' @ str '' b[^2].'')
       = (str ''See this and [that] b.'', [str ''1'', str ''2'', str ''Footnote: x y''])
   \<and> \<not> reference_left_open (str ''A '') \<and> \<not> inline_left_open (fst (sub_footnote_ref (str ''A '')))
   \<and> 91 \<notin> set (str ''A '') \<and> 91 \<notin> set (str '' b.'')
   \<and> extract_notes (str ''A '' @ str ''['' @ str ''Footnote'' @ str '':'' @ str '' x y ''
         @ str '']'' @ str '' b.'')
       = (str ''A b.'', [str ''Footnote: x y''])"
proof -
  have h: "map to_lower (str ''Footnote'') = str ''footnote''" "str '' x y '' \<noteq> []"
    "93 \<notin> set (str '' x y '')" "holds_no_reference (str '' x y '')"
    by (simp_all add: text_defs holds_no_reference_def)
  have p: "\<not> reference_left_open (str ''See this[^1] and [that] '')"
    "\<not> inline_left_open (fst (sub_footnote_ref (str ''See this[^1] and [that] '')))"
    by (simp_all add: text_defs)
  have q: "\<not> reference_left_open (str ''A '')"
    "\<not> inline_left_open (fst (sub_footnote_ref (str ''A '')))"
    "91 \<notin> set (str ''A '')" "91 \<notin> set (str '' b.'')"
    by (simp_all add: text_defs)
  from inline_footnote_payload [OF h p, of "str '' b[^2].''"]
    inline_footnote_payload [OF h q(1,2), of "str '' b.''"] h p q
  show ?thesis by (simp add: text_defs)
qed

text \<open>
  C3 as stated fails: for the sentence \<open>A[footnote:x] b.\<close> the note is not the text
  after the colon.
\<close>

theorem inline_footnote_after_colon_counterexample:
  "snd (extract_notes (str ''A[footnote:x] b.'')) \<noteq> [str ''x'']"
  by (simp add: text_defs)

section \<open>Sentence segmentation\<close>

lemma space_not_terminator: "is_space c \<Longrightarrow> \<not> is_terminator c"
  by (auto simp: is_space_def is_terminator_def)

lemma takeWhile_rev_all:
  "\<forall>x \<in> set b. P x \<Longrightarrow> takeWhile P (rev b) = rev b"
  by (simp add: takeWhile_eq_all_conv)

lemma final_fragment_terminator:
  "is_terminator t \<Longrightarrow> final_fragment (a @ t # b) = final_fragment b"
  by (simp add: final_fragment_def takeWhile_append takeWhile_rev_all)

lemma final_fragment_plain: "\<forall>x \<in> set s. \<not> is_terminator x \<Longrightarrow> final_fragment s = s"
  by (simp add: final_fragment_def takeWhile_rev_all)

lemma final_fragment_last: "final_fragment s \<noteq> [] \<Longrightarrow> last (final_fragment s) = last s"
proof -
  assume a: "final_fragment s \<noteq> []"
  then have "takeWhile (\<lambda>x. \<not> is_terminator x) (rev s) \<noteq> []" by (simp add: final_fragment_def)
  then obtain x xs where r: "rev s = x # xs" and "\<not> is_terminator x"
    by (cases "rev s") (auto split: if_splits)
  then have "last (final_fragment s) = x" by (simp add: final_fragment_def)
  moreover from r have "s = rev xs @ [x]" by (simp add: rev_eq_Cons_iff)
  ultimately show ?thesis by simp
qed

lemma final_fragment_space_prefix:
  assumes "\<forall>x \<in> set ws. is_space x"
  shows "final_fragment (ws @ r) =
     (if \<forall>x \<in> set r. \<not> is_terminator x then ws @ r else final_fragment r)"
proof (cases "\<forall>x \<in> set r. \<not> is_terminator x")
  case True
  with assms have "\<forall>x \<in> set (ws @ r). \<not> is_terminator x"
    by (auto dest: space_not_terminator)
  then have "final_fragment (ws @ r) = ws @ r" by (rule final_fragment_plain)
  with True show ?thesis by simp
next
  case False
  then obtain t where "t \<in> set r" and t: "is_terminator t" by blast
  then obtain a b where r: "r = a @ t # b" by (auto dest: split_list)
  have "final_fragment ((ws @ a) @ t # b) = final_fragment b"
    using t by (rule final_fragment_terminator)
  moreover have "final_fragment (a @ t # b) = final_fragment b"
    using t by (rule final_fragment_terminator)
  ultimately have e: "final_fragment (ws @ r) = final_fragment r" by (simp add: r)
  show ?thesis unfolding e using False by auto
qed

lemma nonspace_dropWhile: "c \<in> set xs \<Longrightarrow> \<not> P c \<Longrightarrow> c \<in> set (dropWhile P xs)"
  by (induction xs) auto

lemma nonspace_sub_ws: "c \<in> set s \<Longrightarrow> \<not> is_space c \<Longrightarrow> c \<in> set (sub_ws s)"
proof (induction s rule: sub_ws.induct)
  case 1
  then show ?case by simp
next
  case (2 d ds)
  show ?case
  proof (cases "is_space d")
    case True
    with 2(3,4) have "c \<in> set ds" by auto
    then have "c \<in> set (dropWhile is_space ds)" using 2(4) by (rule nonspace_dropWhile)
    with 2(1) [OF True] 2(4) True show ?thesis by simp
  next
    case False
    with 2(2) [OF False] 2(3,4) show ?thesis by auto
  qed
qed

lemma nonspace_strip: "c \<in> set s \<Longrightarrow> \<not> is_space c \<Longrightarrow> c \<in> set (strip s)"
proof -
  assume a: "c \<in> set s" "\<not> is_space c"
  then have "c \<in> set (lstrip s)" unfolding lstrip_def by (rule nonspace_dropWhile)
  then have "c \<in> set (rev (lstrip s))" by simp
  then have "c \<in> set (dropWhile is_space (rev (lstrip s)))"
    using a(2) by (rule nonspace_dropWhile)
  then show ?thesis by (simp add: strip_def rstrip_def)
qed

lemma normalize_whitespace_nonempty:
  assumes "x \<noteq> []" and "\<not> is_space (last x)"
  shows "normalize_whitespace x \<noteq> []"
proof -
  from assms(1) have "last x \<in> set x" by simp
  then have "last x \<in> set (sub_ws x)" using assms(2) by (rule nonspace_sub_ws)
  then have "last x \<in> set (strip (sub_ws x))" using assms(2) by (rule nonspace_strip)
  then show ?thesis by (auto simp: normalize_whitespace_def)
qed

lemma strip_space_Cons: "is_space c \<Longrightarrow> strip (c # y) = strip y"
  by (simp add: strip_def lstrip_def)

lemma normalize_whitespace_space_prefix:
  assumes "\<forall>c \<in> set ws. is_space c"
  shows "normalize_whitespace (ws @ x) = normalize_whitespace x"
proof (cases ws)
  case Nil
  then show ?thesis by simp
next
  case (Cons w ws')
  with assms have w: "is_space w" and "\<forall>c \<in> set ws'. is_space c" by simp_all
  then have "dropWhile is_space (ws' @ x) = dropWhile is_space x" by simp
  with w Cons have e: "sub_ws (ws @ x) = 32 # sub_ws (dropWhile is_space x)" by simp
  have s32: "is_space 32" by (simp add: is_space_def)
  have "strip (32 # sub_ws (dropWhile is_space x)) = strip (sub_ws x)"
  proof (cases x)
    case Nil
    then show ?thesis using s32 by (simp add: strip_space_Cons)
  next
    case (Cons c cs)
    show ?thesis
    proof (cases "is_space c")
      case True
      with Cons show ?thesis by simp
    next
      case False
      with Cons have "dropWhile is_space x = x" by simp
      then show ?thesis using s32 by (simp add: strip_space_Cons)
    qed
  qed
  with e show ?thesis by (simp add: normalize_whitespace_def)
qed

lemma sentence_findall_step:
  assumes "\<not> is_terminator c"
  shows "sentence_findall (c # cs) =
     (takeWhile (\<lambda>x. \<not> is_terminator x) (c # cs)
        @ take 1 (dropWhile (\<lambda>x. \<not> is_terminator x) (c # cs))
        @ takeWhile is_space (drop 1 (dropWhile (\<lambda>x. \<not> is_terminator x) (c # cs))))
     # sentence_findall (dropWhile is_space (drop 1 (dropWhile (\<lambda>x. \<not> is_terminator x) (c # cs))))"
  using assms by (simp add: Let_def)

lemma sentence_findall_last:
  "final_fragment s \<noteq> [] \<Longrightarrow> \<not> is_space (last s) \<Longrightarrow>
     sentence_findall s \<noteq> []
     \<and> normalize_whitespace (last (sentence_findall s)) = normalize_whitespace (final_fragment s)"
proof (induction "length s" arbitrary: s rule: less_induct)
  case less
  show ?case
  proof (cases s)
    case Nil
    with less.prems show ?thesis by (simp add: final_fragment_def)
  next
    case (Cons c cs)
    show ?thesis
    proof (cases "is_terminator c")
      case True
      then have ff: "final_fragment s = final_fragment cs"
        using final_fragment_terminator [of c "[]" cs] Cons by simp
      with less.prems(1) have ne: "cs \<noteq> []" by (auto simp: final_fragment_def)
      with Cons have "last s = last cs" by simp
      with less.prems ff less.hyps [of cs] Cons True show ?thesis by simp
    next
      case False
      define r1 where "r1 = dropWhile (\<lambda>x. \<not> is_terminator x) s"
      define body where "body = takeWhile (\<lambda>x. \<not> is_terminator x) s"
      have s: "s = body @ r1" by (simp add: body_def r1_def)
      define r3 where "r3 = dropWhile is_space (drop 1 r1)"
      define ws where "ws = takeWhile is_space (drop 1 r1)"
      have fa: "sentence_findall s = (body @ take 1 r1 @ ws) # sentence_findall r3"
        unfolding Cons body_def r1_def ws_def r3_def
        using sentence_findall_step [OF False, of cs] Cons by simp
      show ?thesis
      proof (cases r1)
        case Nil
        then have "\<forall>x \<in> set s. \<not> is_terminator x" by (simp add: r1_def)
        then have "final_fragment s = s" by (rule final_fragment_plain)
        moreover from Nil s fa have "sentence_findall s = [s]" by (simp add: ws_def r3_def)
        ultimately show ?thesis by simp
      next
        case (Cons t r2)
        have "r1 \<noteq> []" using Cons by simp
        then have "\<not> \<not> is_terminator (hd r1)" unfolding r1_def by (rule hd_dropWhile)
        with Cons have t: "is_terminator t" by simp
        have s2: "s = body @ t # r2" using s Cons by simp
        have ff: "final_fragment s = final_fragment r2"
          unfolding s2 using t by (rule final_fragment_terminator)
        with less.prems(1) have r2ne: "r2 \<noteq> []" by (auto simp: final_fragment_def)
        then have ls: "last s = last r2" by (simp add: s2)
        have r2: "r2 = ws @ r3" using Cons by (simp add: ws_def r3_def)
        have wsp: "\<forall>x \<in> set ws. is_space x"
          unfolding ws_def by (auto dest: set_takeWhileD)
        have r3ne: "r3 \<noteq> []"
        proof
          assume "r3 = []"
          with r2 have "r2 = ws" by simp
          with r2ne wsp have "is_space (last r2)" by simp
          with ls less.prems(2) show False by simp
        qed
        with r2 have l3: "last r3 = last r2" by simp
        have f2: "final_fragment r2 =
            (if \<forall>x \<in> set r3. \<not> is_terminator x then ws @ r3 else final_fragment r3)"
          unfolding r2 using wsp by (rule final_fragment_space_prefix)
        have f3: "final_fragment r3 \<noteq> []"
        proof (cases "\<forall>x \<in> set r3. \<not> is_terminator x")
          case True
          then have "final_fragment r3 = r3" by (rule final_fragment_plain)
          with r3ne show ?thesis by simp
        next
          case False
          with f2 ff less.prems(1) show ?thesis by simp
        qed
        have n: "normalize_whitespace (final_fragment r2) = normalize_whitespace (final_fragment r3)"
        proof (cases "\<forall>x \<in> set r3. \<not> is_terminator x")
          case True
          then have "final_fragment r3 = r3" by (rule final_fragment_plain)
          with True f2 show ?thesis
            by (simp add: normalize_whitespace_space_prefix [OF wsp])
        next
          case False
          with f2 show ?thesis by simp
        qed
        have "length r3 \<le> length r2" using r2 by simp
        then have "length r3 < length s" using s2 by simp
        moreover have "\<not> is_space (last r3)" using l3 ls less.prems(2) by simp
        ultimately have ih: "sentence_findall r3 \<noteq> []
            \<and> normalize_whitespace (last (sentence_findall r3)) = normalize_whitespace (final_fragment r3)"
          using f3 by (intro less.hyps)
        with fa ff n show ?thesis by simp
      qed
    qed
  qed
qed


lemma last_filter_keep:
  assumes "xs \<noteq> []" and "P (last xs)"
  shows "filter P xs \<noteq> [] \<and> last (filter P xs) = last xs"
proof -
  from assms(1) have "xs = butlast xs @ [last xs]" by simp
  then have "filter P xs = filter P (butlast xs) @ filter P [last xs]"
    by (metis filter_append)
  with assms(2) show ?thesis by simp
qed

lemma split_sentences_member:
  assumes "s \<in> set (split_sentences p)"
  shows "s \<noteq> [] \<and> (\<exists>m \<in> set (sentence_findall (strip p)). s = normalize_whitespace m)"
  using assms by (auto simp: split_sentences_def Let_def split: if_splits)

lemma normalize_whitespace_shape:
  "single_spaced (normalize_whitespace m)
   \<and> (normalize_whitespace m \<noteq> [] \<longrightarrow>
        \<not> is_space (hd (normalize_whitespace m)) \<and> \<not> is_space (last (normalize_whitespace m)))"
  using strip_ends [of "sub_ws m"] single_spaced_strip [OF single_spaced_sub_ws, of m]
  by (auto simp: normalize_whitespace_def)

lemma split_sentences_last:
  assumes "final_fragment (strip p) \<noteq> []"
  shows "split_sentences p \<noteq> []
     \<and> last (split_sentences p) = normalize_whitespace (final_fragment (strip p))"
proof -
  define q where "q = strip p"
  from assms have qne: "q \<noteq> []" by (auto simp: q_def final_fragment_def)
  with strip_ends [of p] have ql: "\<not> is_space (last q)" by (simp add: q_def)
  from assms have f: "final_fragment q \<noteq> []" by (simp add: q_def)
  from sentence_findall_last [OF f ql]
  have ne: "sentence_findall q \<noteq> []"
    and eq: "normalize_whitespace (last (sentence_findall q)) = normalize_whitespace (final_fragment q)"
    by simp_all
  have "\<not> is_space (last (final_fragment q))"
    using final_fragment_last [OF f] ql by simp
  with f have nn: "normalize_whitespace (final_fragment q) \<noteq> []"
    by (rule normalize_whitespace_nonempty)
  define xs where "xs = map normalize_whitespace (sentence_findall q)"
  have x1: "xs \<noteq> []" using ne by (simp add: xs_def)
  have x2: "last xs = normalize_whitespace (final_fragment q)"
    using ne eq by (simp add: xs_def last_map)
  with nn have "last xs \<noteq> []" by simp
  with x1 have "filter (\<lambda>s. s \<noteq> []) xs \<noteq> [] \<and> last (filter (\<lambda>s. s \<noteq> []) xs) = last xs"
    by (rule last_filter_keep)
  moreover have "split_sentences p = filter (\<lambda>s. s \<noteq> []) xs"
    using qne by (simp add: split_sentences_def xs_def q_def)
  ultimately show ?thesis using x2 by (simp add: q_def)
qed

text \<open>
  C8. The sentence segmenter returns no sentence for the empty text; every sentence it
  returns is non-empty and whitespace-normalized, being the normalization of a match of
  the sentence pattern: its whitespace is single spaces between other code points, with
  none at either end; and a final fragment without terminator, the text after the last
  terminator of the stripped paragraph, is emitted, normalized, as the last sentence.
\<close>

theorem split_sentences_segments:
  "split_sentences [] = []
   \<and> (\<forall>s \<in> set (split_sentences p).
        s \<noteq> [] \<and> normalize_whitespace s = s \<and> single_spaced s
        \<and> \<not> is_space (hd s) \<and> \<not> is_space (last s)
        \<and> (\<exists>m \<in> set (sentence_findall (strip p)). s = normalize_whitespace m))
   \<and> (final_fragment (strip p) \<noteq> [] \<longrightarrow>
        split_sentences p \<noteq> []
        \<and> last (split_sentences p) = normalize_whitespace (final_fragment (strip p)))"
proof (intro conjI ballI impI)
  show "split_sentences [] = []"
    by (simp add: split_sentences_def strip_def lstrip_def rstrip_def)
next
  fix s assume a: "s \<in> set (split_sentences p)"
  from split_sentences_member [OF a] obtain m where ne: "s \<noteq> []"
    and m: "m \<in> set (sentence_findall (strip p))" and s: "s = normalize_whitespace m" by blast
  show "s \<noteq> []" by (rule ne)
  show "normalize_whitespace s = s" unfolding s by (rule normalize_whitespace_fixed)
  show "single_spaced s" unfolding s using normalize_whitespace_shape [of m] by simp
  show "\<not> is_space (hd s)" using normalize_whitespace_shape [of m] ne s by simp
  show "\<not> is_space (last s)" using normalize_whitespace_shape [of m] ne s by simp
  show "\<exists>m \<in> set (sentence_findall (strip p)). s = normalize_whitespace m" using m s by blast
next
  assume "final_fragment (strip p) \<noteq> []"
  then show "split_sentences p \<noteq> []" by (simp add: split_sentences_last)
next
  assume "final_fragment (strip p) \<noteq> []"
  then show "last (split_sentences p) = normalize_whitespace (final_fragment (strip p))"
    by (simp add: split_sentences_last)
qed

theorem split_sentences_segments_witness:
  "str ''Hello world.'' \<in> set (split_sentences (str ''Hello  world.  This is ''))
   \<and> normalize_whitespace (str ''Hello world.'') = str ''Hello world.''
   \<and> single_spaced (str ''Hello world.'')
   \<and> final_fragment (strip (str ''Hello  world.  This is '')) = str ''  This is''
   \<and> str ''  This is'' \<noteq> []
   \<and> last (split_sentences (str ''Hello  world.  This is '')) = str ''This is''"
proof -
  have e: "split_sentences (str ''Hello  world.  This is '') = [str ''Hello world.'', str ''This is'']"
    by (simp add: text_defs)
  have f: "final_fragment (strip (str ''Hello  world.  This is '')) = str ''  This is''"
    by (simp add: final_fragment_def text_defs)
  have n: "normalize_whitespace (str ''  This is'') = str ''This is''"
    by (simp add: text_defs)
  have ne: "str ''  This is'' \<noteq> []" by (simp add: str_simps)
  from split_sentences_segments [of "str ''Hello  world.  This is ''"] ne
  show ?thesis unfolding e f n by simp
qed

section \<open>List items\<close>

lemma splitlines_items:
  "splitlines (str ''- item one\<newline>- item two\<newline>'') = [str ''- item one'', str ''- item two'']"
  by (simp add: text_defs)


lemma paragraph_lines_flushed:
  "(flush_paragraph st)\<lparr>paragraph_lines := []\<rparr> = flush_paragraph st"
  by (cases "flush_paragraph st") (use flush_paragraph_fields(4) [of st] in simp)


lemma list_item_one:
  assumes "current_chapter st = Some i"
  shows "process_line st (str ''- item one'') =
     (flush_paragraph st)\<lparr>st_chapters := (st_chapters (flush_paragraph st))
        [i := append_paragraph (st_chapters (flush_paragraph st) ! i)
          [\<lparr>sentence_number = 1, sentence_text = str ''- item one'', sentence_notes = None\<rparr>]]\<rparr>"
proof -
  have c: "current_chapter (flush_paragraph st) = Some i"
    using assms by (simp add: flush_paragraph_fields)
  have "flush_paragraph (s\<lparr>paragraph_lines := [str ''- item one'']\<rparr>) =
      s\<lparr>paragraph_lines := [], st_chapters := (st_chapters s)
        [i := append_paragraph (st_chapters s ! i)
          [\<lparr>sentence_number = 1, sentence_text = str ''- item one'', sentence_notes = None\<rparr>]]\<rparr>"
    if "current_chapter s = Some i" for s
    using that by (simp add: text_defs flush_paragraph_def sentence_entry_def enumerate_eq_zip)
  from this [OF c] have "process_line st (str ''- item one'') =
      (flush_paragraph st)\<lparr>paragraph_lines := [], st_chapters := (st_chapters (flush_paragraph st))
        [i := append_paragraph (st_chapters (flush_paragraph st) ! i)
          [\<lparr>sentence_number = 1, sentence_text = str ''- item one'', sentence_notes = None\<rparr>]]\<rparr>"
    using assms
    by (simp add: str_simps is_space_def to_lower_def strip_def lstrip_def rstrip_def
        process_line_def heading_match_def by_line_match_def ensure_chapter_def record_author_def)
  then show ?thesis by (simp add: paragraph_lines_flushed)
qed

lemma list_item_two:
  assumes "current_chapter st = Some i"
  shows "process_line st (str ''- item two'') =
     (flush_paragraph st)\<lparr>st_chapters := (st_chapters (flush_paragraph st))
        [i := append_paragraph (st_chapters (flush_paragraph st) ! i)
          [\<lparr>sentence_number = 1, sentence_text = str ''- item two'', sentence_notes = None\<rparr>]]\<rparr>"
proof -
  have c: "current_chapter (flush_paragraph st) = Some i"
    using assms by (simp add: flush_paragraph_fields)
  have "flush_paragraph (s\<lparr>paragraph_lines := [str ''- item two'']\<rparr>) =
      s\<lparr>paragraph_lines := [], st_chapters := (st_chapters s)
        [i := append_paragraph (st_chapters s ! i)
          [\<lparr>sentence_number = 1, sentence_text = str ''- item two'', sentence_notes = None\<rparr>]]\<rparr>"
    if "current_chapter s = Some i" for s
    using that by (simp add: text_defs flush_paragraph_def sentence_entry_def enumerate_eq_zip)
  from this [OF c] have "process_line st (str ''- item two'') =
      (flush_paragraph st)\<lparr>paragraph_lines := [], st_chapters := (st_chapters (flush_paragraph st))
        [i := append_paragraph (st_chapters (flush_paragraph st) ! i)
          [\<lparr>sentence_number = 1, sentence_text = str ''- item two'', sentence_notes = None\<rparr>]]\<rparr>"
    using assms
    by (simp add: str_simps is_space_def to_lower_def strip_def lstrip_def rstrip_def
        process_line_def heading_match_def by_line_match_def ensure_chapter_def record_author_def)
  then show ?thesis by (simp add: paragraph_lines_flushed)
qed

lemma flush_paragraph_no_lines: "paragraph_lines st = [] \<Longrightarrow> flush_paragraph st = st"
  by (cases st) (simp add: flush_paragraph_def split: option.splits)

lemma list_item_not_heading:
  assumes "take 2 (strip (rstrip l)) = str ''- ''"
  shows "heading_match (rstrip l) = None"
proof (cases "rstrip l")
  case Nil
  then show ?thesis by (simp add: heading_match_def)
next
  case (Cons c r)
  show ?thesis
  proof (cases "c = 35")
    case True
    have "\<not> is_space 35" by (simp add: is_space_def)
    with Cons True rstrip_last [of l] have "strip (rstrip l) = rstrip l"
      by (intro strip_id) simp
    with assms Cons True show ?thesis by (simp add: str_simps)
  next
    case False
    with Cons show ?thesis by (simp add: heading_match_def)
  qed
qed

lemma list_item_no_author: "take 2 s = str ''- '' \<Longrightarrow> by_line_match s = None"
  by (simp add: by_line_match_def str_simps to_lower_def)

lemma split_sentences_starts:
  assumes "s \<noteq> []" and "strip s = s" and "\<not> is_terminator (hd s)"
  shows "split_sentences s \<noteq> []"
proof -
  from assms(1) obtain c cs where s: "s = c # cs" by (cases s) auto
  from strip_ends [of s] assms(1,2) s have sp: "\<not> is_space c" by simp
  from assms(3) s have nt: "\<not> is_terminator c" by simp
  obtain m ms where f: "sentence_findall s = m # ms" and c: "c \<in> set m"
    using sentence_findall_step [OF nt, of cs] nt s by simp
  from c sp have "c \<in> set (sub_ws m)" by (rule nonspace_sub_ws)
  then have "c \<in> set (strip (sub_ws m))" using sp by (rule nonspace_strip)
  then have "normalize_whitespace m \<noteq> []" by (auto simp: normalize_whitespace_def)
  with f assms(1,2) show ?thesis by (simp add: split_sentences_def)
qed

lemma list_item_line:
  assumes "current_chapter st = Some i" and "take 2 (strip (rstrip l)) = str ''- ''"
  shows "process_line st l =
     (flush_paragraph st)\<lparr>st_chapters := (st_chapters (flush_paragraph st))
        [i := append_paragraph (st_chapters (flush_paragraph st) ! i)
           (map sentence_entry (enumerate 1 (split_sentences (strip (rstrip l)))))]\<rparr>"
    and "split_sentences (strip (rstrip l)) \<noteq> []"
proof -
  define s where "s = strip (rstrip l)"
  have t: "take 2 s = str ''- ''" using assms(2) by (simp add: s_def)
  then have ne: "s \<noteq> []" by (auto simp: str_simps)
  have ss: "strip s = s" by (simp add: s_def strip_idem)
  from t have "hd s = 45" by (cases s) (simp_all add: str_simps)
  then have "\<not> is_terminator (hd s)" by (simp add: is_terminator_def)
  with ne ss have sp: "split_sentences s \<noteq> []" by (rule split_sentences_starts)
  then show "split_sentences (strip (rstrip l)) \<noteq> []" by (simp add: s_def)
  have h: "heading_match (rstrip l) = None" by (rule list_item_not_heading [OF assms(2)])
  have b: "by_line_match s = None" by (rule list_item_no_author [OF t])
  have c: "current_chapter (flush_paragraph st) = Some i"
    using assms(1) by (simp add: flush_paragraph_fields)
  have e: "map sentence_entry (enumerate 1 (split_sentences s)) \<noteq> []"
    using sp by (cases "split_sentences s") simp_all
  have "flush_paragraph (x\<lparr>paragraph_lines := [s]\<rparr>) =
      x\<lparr>paragraph_lines := [], st_chapters := (st_chapters x)
        [i := append_paragraph (st_chapters x ! i)
          (map sentence_entry (enumerate 1 (split_sentences s)))]\<rparr>"
    if "current_chapter x = Some i" for x
    using that ne ss e by (simp add: flush_paragraph_def Let_def)
  from this [OF c] have "process_line st l =
      (flush_paragraph st)\<lparr>paragraph_lines := [], st_chapters := (st_chapters (flush_paragraph st))
        [i := append_paragraph (st_chapters (flush_paragraph st) ! i)
          (map sentence_entry (enumerate 1 (split_sentences s)))]\<rparr>"
    using assms(1) h b ne t
    by (simp add: process_line_def Let_def ensure_chapter_def record_author_def s_def [symmetric])
  then show "process_line st l =
     (flush_paragraph st)\<lparr>st_chapters := (st_chapters (flush_paragraph st))
        [i := append_paragraph (st_chapters (flush_paragraph st) ! i)
           (map sentence_entry (enumerate 1 (split_sentences (strip (rstrip l)))))]\<rparr>"
    by (simp add: paragraph_lines_flushed s_def)
qed

lemma two_list_items:
  assumes "current_chapter st = Some i" and "i < length (st_chapters st)"
  shows "foldl process_line st (splitlines (str ''- item one\<newline>- item two\<newline>'')) =
     (flush_paragraph st)\<lparr>st_chapters := (st_chapters (flush_paragraph st))
        [i := (st_chapters (flush_paragraph st) ! i)
           \<lparr>paragraphs := paragraphs (st_chapters (flush_paragraph st) ! i)
              @ [\<lparr>paragraph_number = length (paragraphs (st_chapters (flush_paragraph st) ! i)) + 1,
                  sentences = [\<lparr>sentence_number = 1, sentence_text = str ''- item one'',
                                sentence_notes = None\<rparr>]\<rparr>,
                 \<lparr>paragraph_number = length (paragraphs (st_chapters (flush_paragraph st) ! i)) + 2,
                  sentences = [\<lparr>sentence_number = 1, sentence_text = str ''- item two'',
                                sentence_notes = None\<rparr>]\<rparr>]\<rparr>]\<rparr>"
proof -
  define F where "F = flush_paragraph st"
  define s1 where "s1 = \<lparr>sentence_number = 1, sentence_text = str ''- item one'',
    sentence_notes = None\<rparr>"
  define s2 where "s2 = \<lparr>sentence_number = 1, sentence_text = str ''- item two'',
    sentence_notes = None\<rparr>"
  define st1 where "st1 = F\<lparr>st_chapters := (st_chapters F)
    [i := append_paragraph (st_chapters F ! i) [s1]]\<rparr>"
  have len: "i < length (st_chapters F)"
    using assms(2) by (simp add: F_def flush_paragraph_fields)
  have step1: "process_line st (str ''- item one'') = st1"
    unfolding st1_def F_def s1_def by (rule list_item_one [OF assms(1)])
  have c1: "current_chapter st1 = Some i"
    using assms(1) by (simp add: st1_def F_def flush_paragraph_fields)
  have "paragraph_lines st1 = []"
    by (simp add: st1_def F_def flush_paragraph_fields)
  then have f1: "flush_paragraph st1 = st1" by (rule flush_paragraph_no_lines)
  have "process_line st1 (str ''- item two'') =
      st1\<lparr>st_chapters := (st_chapters st1)[i := append_paragraph (st_chapters st1 ! i) [s2]]\<rparr>"
    unfolding s2_def using list_item_two [OF c1] by (simp only: f1)
  also have "\<dots> = F\<lparr>st_chapters := (st_chapters F)
      [i := append_paragraph (append_paragraph (st_chapters F ! i) [s1]) [s2]]\<rparr>"
    using len by (simp add: st1_def)
  finally have "foldl process_line st (splitlines (str ''- item one\<newline>- item two\<newline>'')) =
      F\<lparr>st_chapters := (st_chapters F)
        [i := append_paragraph (append_paragraph (st_chapters F ! i) [s1]) [s2]]\<rparr>"
    by (simp add: splitlines_items step1)
  then show ?thesis
    by (simp add: append_paragraph_def F_def s1_def s2_def)
qed

text \<open>
  C7. With a chapter open, every line whose stripped text starts with \<open>"- "\<close>, indented
  or not, first flushes the paragraph in progress, so that it never merges with it, and
  then appends to the current chapter one paragraph of its own, made of the sentences of
  that line alone. So the lines of \<open>"- item one\n- item two\n"\<close> append exactly two
  paragraphs, in the order of the items, of one sentence each.
\<close>

theorem list_items_two_paragraphs:
  assumes "current_chapter st = Some i" and "i < length (st_chapters st)"
  shows "foldl process_line st (splitlines (str ''- item one\<newline>- item two\<newline>'')) =
     (flush_paragraph st)\<lparr>st_chapters := (st_chapters (flush_paragraph st))
        [i := (st_chapters (flush_paragraph st) ! i)
           \<lparr>paragraphs := paragraphs (st_chapters (flush_paragraph st) ! i)
              @ [\<lparr>paragraph_number = length (paragraphs (st_chapters (flush_paragraph st) ! i)) + 1,
                  sentences = [\<lparr>sentence_number = 1, sentence_text = str ''- item one'',
                                sentence_notes = None\<rparr>]\<rparr>,
                 \<lparr>paragraph_number = length (paragraphs (st_chapters (flush_paragraph st) ! i)) + 2,
                  sentences = [\<lparr>sentence_number = 1, sentence_text = str ''- item two'',
                                sentence_notes = None\<rparr>]\<rparr>]\<rparr>]\<rparr>
   \<and> (take 2 (strip (rstrip l)) = str ''- '' \<longrightarrow>
        split_sentences (strip (rstrip l)) \<noteq> []
        \<and> process_line st l =
           (flush_paragraph st)\<lparr>st_chapters := (st_chapters (flush_paragraph st))
             [i := (st_chapters (flush_paragraph st) ! i)
                \<lparr>paragraphs := paragraphs (st_chapters (flush_paragraph st) ! i)
                   @ [\<lparr>paragraph_number = length (paragraphs (st_chapters (flush_paragraph st) ! i)) + 1,
                       sentences = map sentence_entry
                         (enumerate 1 (split_sentences (strip (rstrip l))))\<rparr>]\<rparr>]\<rparr>)"
proof (intro conjI impI)
  show "foldl process_line st (splitlines (str ''- item one\<newline>- item two\<newline>'')) =
     (flush_paragraph st)\<lparr>st_chapters := (st_chapters (flush_paragraph st))
        [i := (st_chapters (flush_paragraph st) ! i)
           \<lparr>paragraphs := paragraphs (st_chapters (flush_paragraph st) ! i)
              @ [\<lparr>paragraph_number = length (paragraphs (st_chapters (flush_paragraph st) ! i)) + 1,
                  sentences = [\<lparr>sentence_number = 1, sentence_text = str ''- item one'',
                                sentence_notes = None\<rparr>]\<rparr>,
                 \<lparr>paragraph_number = length (paragraphs (st_chapters (flush_paragraph st) ! i)) + 2,
                  sentences = [\<lparr>sentence_number = 1, sentence_text = str ''- item two'',
                                sentence_notes = None\<rparr>]\<rparr>]\<rparr>]\<rparr>"
    by (rule two_list_items [OF assms])
next
  assume "take 2 (strip (rstrip l)) = str ''- ''"
  then show "split_sentences (strip (rstrip l)) \<noteq> []"
    by (rule list_item_line(2) [OF assms(1)])
next
  assume a: "take 2 (strip (rstrip l)) = str ''- ''"
  show "process_line st l =
           (flush_paragraph st)\<lparr>st_chapters := (st_chapters (flush_paragraph st))
             [i := (st_chapters (flush_paragraph st) ! i)
                \<lparr>paragraphs := paragraphs (st_chapters (flush_paragraph st) ! i)
                   @ [\<lparr>paragraph_number = length (paragraphs (st_chapters (flush_paragraph st) ! i)) + 1,
                       sentences = map sentence_entry
                         (enumerate 1 (split_sentences (strip (rstrip l))))\<rparr>]\<rparr>]\<rparr>"
    using list_item_line(1) [OF assms(1) a] by (simp add: append_paragraph_def)
qed

lemma flush_open_chapter_state:
  "flush_paragraph open_chapter_state = \<lparr>book_title = None, book_metadata = None,
     st_chapters = [\<lparr>chapter_number = 1, chapter_title = str ''Ch'',
       paragraphs = [\<lparr>paragraph_number = 1,
         sentences = [\<lparr>sentence_number = 1, sentence_text = str ''Some prose'',
                       sentence_notes = None\<rparr>]\<rparr>]\<rparr>],
     current_chapter = Some 0, paragraph_lines = []\<rparr>"
  by (simp add: open_chapter_state_def text_defs flush_paragraph_def sentence_entry_def
      append_paragraph_def enumerate_eq_zip)

theorem list_items_two_paragraphs_witness:
  "current_chapter open_chapter_state = Some 0
   \<and> 0 < length (st_chapters open_chapter_state)
   \<and> st_chapters (foldl process_line open_chapter_state
         (splitlines (str ''- item one\<newline>- item two\<newline>''))) =
       [\<lparr>chapter_number = 1, chapter_title = str ''Ch'',
         paragraphs =
          [\<lparr>paragraph_number = 1,
            sentences = [\<lparr>sentence_number = 1, sentence_text = str ''Some prose'',
                          sentence_notes = None\<rparr>]\<rparr>,
           \<lparr>paragraph_number = 2,
            sentences = [\<lparr>sentence_number = 1, sentence_text = str ''- item one'',
                          sentence_notes = None\<rparr>]\<rparr>,
           \<lparr>paragraph_number = 3,
            sentences = [\<lparr>sentence_number = 1, sentence_text = str ''- item two'',
                          sentence_notes = None\<rparr>]\<rparr>]\<rparr>]
   \<and> take 2 (strip (rstrip (str ''   - item  three. More  ''))) = str ''- ''
   \<and> st_chapters (process_line open_chapter_state (str ''   - item  three. More  '')) =
       [\<lparr>chapter_number = 1, chapter_title = str ''Ch'',
         paragraphs =
          [\<lparr>paragraph_number = 1,
            sentences = [\<lparr>sentence_number = 1, sentence_text = str ''Some prose'',
                          sentence_notes = None\<rparr>]\<rparr>,
           \<lparr>paragraph_number = 2,
            sentences = [\<lparr>sentence_number = 1, sentence_text = str ''- item three.'',
                          sentence_notes = None\<rparr>,
                         \<lparr>sentence_number = 2, sentence_text = str ''More'',
                          sentence_notes = None\<rparr>]\<rparr>]\<rparr>]"
proof -
  have c: "current_chapter open_chapter_state = Some 0"
    and l: "0 < length (st_chapters open_chapter_state)"
    by (simp_all add: open_chapter_state_def)
  have t: "take 2 (strip (rstrip (str ''   - item  three. More  ''))) = str ''- ''"
    by (simp add: text_defs)
  have e: "map sentence_entry (enumerate 1 (split_sentences (strip (rstrip (str ''   - item  three. More  ''))))) =
      [\<lparr>sentence_number = 1, sentence_text = str ''- item three.'', sentence_notes = None\<rparr>,
       \<lparr>sentence_number = 2, sentence_text = str ''More'', sentence_notes = None\<rparr>]"
    by (simp add: text_defs sentence_entry_def enumerate_eq_zip)
  show ?thesis
    using c l t list_items_two_paragraphs [OF c l, of "str ''   - item  three. More  ''"]
    unfolding e by (simp add: flush_open_chapter_state)
qed

end
